theory Spec2Isabelle
  imports Main "HOL-Library.Multiset"
begin

section \<open>Strings\<close>

text \<open>
  JavaScript strings are modelled as \<open>string\<close>. The source only compares strings,
  concatenates them and tests prefixes and suffixes, so the element type plays no role.
\<close>

definition startsWith :: "string \<Rightarrow> string \<Rightarrow> bool" where
  "startsWith s p = (take (length p) s = p)"

definition endsWith :: "string \<Rightarrow> string \<Rightarrow> bool" where
  "endsWith s p = (length p \<le> length s \<and> drop (length s - length p) s = p)"

text \<open>\<open>s.replace(/\.js$/, ext)\<close>: a trailing \<open>.js\<close> is replaced, any other string is unchanged.\<close>

definition replaceJsExt :: "string \<Rightarrow> string \<Rightarrow> string" where
  "replaceJsExt s ext = (if endsWith s ''.js'' then take (length s - 3) s @ ext else s)"

section \<open>The POSIX \<open>path\<close> module of the runtime\<close>

text \<open>
  \<open>path.resolve\<close>, \<open>path.dirname\<close> and \<open>path.relative\<close> belong to the runtime, not to
  the repository. They are modelled on segments, for POSIX paths; \<open>cwd\<close> is the working
  directory of the process.
\<close>

fun segments :: "string \<Rightarrow> string list" where
  "segments [] = [[]]"
| "segments (c # cs) =
     (if c = CHR ''/'' then [] # segments cs
      else (case segments cs of [] \<Rightarrow> [[c]] | s # ss \<Rightarrow> (c # s) # ss))"

definition normStep :: "bool \<Rightarrow> string list \<Rightarrow> string \<Rightarrow> string list" where
  "normStep allowAboveRoot res seg =
     (if seg = [] \<or> seg = ''.'' then res
      else if seg = ''..'' then
        (if res \<noteq> [] \<and> last res \<noteq> ''..'' then butlast res
         else if allowAboveRoot then res @ [seg] else res)
      else res @ [seg])"

definition normalizeString :: "string \<Rightarrow> bool \<Rightarrow> string list" where
  "normalizeString p allowAboveRoot = foldl (normStep allowAboveRoot) [] (segments p)"

fun joinSegs :: "string list \<Rightarrow> string" where
  "joinSegs [] = []"
| "joinSegs [s] = s"
| "joinSegs (s # t # ss) = s @ ''/'' @ joinSegs (t # ss)"

text \<open>The loop of \<open>path.resolve\<close> runs over the arguments from the last to the first and
  then over the working directory, until an absolute path has been prepended.\<close>

fun resolveLoop :: "string list \<Rightarrow> string \<Rightarrow> string \<times> bool" where
  "resolveLoop [] resolvedPath = (resolvedPath, False)"
| "resolveLoop (p # ps) resolvedPath =
     (if p = [] then resolveLoop ps resolvedPath
      else if hd p = CHR ''/'' then (p @ ''/'' @ resolvedPath, True)
      else resolveLoop ps (p @ ''/'' @ resolvedPath))"

definition path_resolve :: "string \<Rightarrow> string list \<Rightarrow> string" where
  "path_resolve cwd args =
     (case resolveLoop (rev args @ [cwd]) [] of
        (resolvedPath, resolvedAbsolute) \<Rightarrow>
          (let res = joinSegs (normalizeString resolvedPath (\<not> resolvedAbsolute))
           in if resolvedAbsolute then ''/'' @ res
              else if res \<noteq> [] then res else ''.''))"

definition path_dirname :: "string \<Rightarrow> string" where
  "path_dirname p =
     (if p = [] then ''.''
      else
        (let r = dropWhile (\<lambda>c. c \<noteq> CHR ''/'') (dropWhile (\<lambda>c. c = CHR ''/'') (rev (tl p)))
         in if r = [] then (if hd p = CHR ''/'' then ''/'' else ''.'')
            else if hd p = CHR ''/'' \<and> length r = 1 then ''//''
            else take (length r) p))"

fun stripCommon :: "string list \<Rightarrow> string list \<Rightarrow> string list \<times> string list" where
  "stripCommon (a # as) (b # bs) = (if a = b then stripCommon as bs else (a # as, b # bs))"
| "stripCommon as bs = (as, bs)"

definition path_relative :: "string \<Rightarrow> string \<Rightarrow> string \<Rightarrow> string" where
  "path_relative cwd from to =
     (if from = to then []
      else
        (let f = path_resolve cwd [from]; t = path_resolve cwd [to]
         in if f = t then []
            else (case stripCommon (normalizeString f False) (normalizeString t False) of
                    (fs, ts) \<Rightarrow> joinSegs (replicate (length fs) ''..'' @ ts))))"

section \<open>The file system seen by discovery\<close>

text \<open>
  \<open>fs.readdir(dir, {withFileTypes: true})\<close> gives the entries of a directory, each with
  its name and whether it is a directory, or fails. A directory tree is the listing of
  its root: \<open>None\<close> is a directory that cannot be read.
\<close>

datatype dirent = FileEnt string | DirEnt string "dirent list option"

datatype io_error = ReaddirFailed string

definition excludedDir :: "string \<Rightarrow> bool" where
  "excludedDir name = (name = ''node_modules'' \<or> name = ''.git'' \<or> name = ''dist'')"

text \<open>The directory walk of the \<open>search_code\<close> tool, \<open>searchDir\<close>, in the same program,
  skips the directories of this list.\<close>

definition searchExcluded :: "string \<Rightarrow> bool" where
  "searchExcluded name =
     (name \<in> set [''node_modules'', ''.git'', ''dist'', ''coverage'', ''.gemini''])"

text \<open>The test \<open>/\.(ts|js|tsx|jsx|json)$/\<close> on an entry name.\<close>

definition sourceExt :: "string \<Rightarrow> bool" where
  "sourceExt name =
     (endsWith name ''.ts'' \<or> endsWith name ''.js'' \<or> endsWith name ''.tsx''
      \<or> endsWith name ''.jsx'' \<or> endsWith name ''.json'')"

fun getAllFiles :: "string \<Rightarrow> string \<Rightarrow> dirent list option \<Rightarrow> io_error + string list"
  and walkEntries :: "string \<Rightarrow> string \<Rightarrow> dirent list \<Rightarrow> io_error + string list"
where
  "getAllFiles cwd dir None = Inl (ReaddirFailed dir)"
| "getAllFiles cwd dir (Some entries) = walkEntries cwd dir entries"
| "walkEntries cwd dir [] = Inr []"
| "walkEntries cwd dir (FileEnt name # entries) =
     (case walkEntries cwd dir entries of
        Inl e \<Rightarrow> Inl e
      | Inr files \<Rightarrow>
          Inr ((if sourceExt name then [path_resolve cwd [dir, name]] else []) @ files))"
| "walkEntries cwd dir (DirEnt name sub # entries) =
     (if excludedDir name then walkEntries cwd dir entries
      else (case getAllFiles cwd (path_resolve cwd [dir, name]) sub of
              Inl e \<Rightarrow> Inl e
            | Inr subFiles \<Rightarrow>
                (case walkEntries cwd dir entries of
                   Inl e \<Rightarrow> Inl e
                 | Inr files \<Rightarrow> Inr (subFiles @ files))))"

section \<open>The syntax tree walked by the analyzer\<close>

text \<open>
  \<open>ts.createSourceFile\<close> is the parser of the TypeScript library. The tree it returns is
  an input of the model: a node carries what \<open>visit\<close> reads of it (its kind, its name,
  its modifiers, its module specifier, the callee and the arguments of a call) and the
  children that \<open>ts.forEachChild\<close> enumerates. Comments are trivia of the parser and are
  not nodes: they are part of the text of the file, which the root node \<open>SourceFile\<close>
  carries beside its statements. A string literal is a node of kind \<open>StringLiteral\<close>.
  Identifier and keyword children that are leaves (a declaration's name, its modifiers)
  are fields only, and the declaration list of a variable statement is merged into the
  statement. \<open>OtherNode\<close> stands for every kind that \<open>visit\<close> does not test.
\<close>

datatype modifier = ExportKeyword | OtherModifier

datatype ts_node =
    SourceFile string "ts_node list"
  | FunctionDeclaration "modifier list" "string option" "ts_node list"
  | ClassDeclaration "modifier list" "string option" "ts_node list"
  | VariableStatement "modifier list" "ts_node list"
  | VariableDeclaration ts_node "ts_node list"
  | ImportDeclaration "ts_node list" ts_node
  | ExportDeclaration "ts_node list" "ts_node option"
  | CallExpression ts_node "ts_node list" "ts_node list"
  | StringLiteral string
  | Identifier string
  | ImportKeyword
  | OtherNode "ts_node list"

text \<open>The children in the order of \<open>ts.forEachChild\<close>.\<close>

fun forEachChild :: "ts_node \<Rightarrow> ts_node list" where
  "forEachChild (SourceFile text statements) = statements"
| "forEachChild (FunctionDeclaration ms name cs) = cs"
| "forEachChild (ClassDeclaration ms name cs) = cs"
| "forEachChild (VariableStatement ms decls) = decls"
| "forEachChild (VariableDeclaration name cs) = name # cs"
| "forEachChild (ImportDeclaration cs spec) = cs @ [spec]"
| "forEachChild (ExportDeclaration cs None) = cs"
| "forEachChild (ExportDeclaration cs (Some spec)) = cs @ [spec]"
| "forEachChild (CallExpression callee targs args) = callee # targs @ args"
| "forEachChild (StringLiteral s) = []"
| "forEachChild (Identifier s) = []"
| "forEachChild ImportKeyword = []"
| "forEachChild (OtherNode cs) = cs"

definition isExported :: "modifier list \<Rightarrow> bool" where
  "isExported ms = (\<exists>m \<in> set ms. m = ExportKeyword)"

fun declaredVar :: "ts_node \<Rightarrow> string list" where
  "declaredVar (VariableDeclaration (Identifier x) cs) = [''var:'' @ x]"
| "declaredVar d = []"

text \<open>What \<open>visit\<close> pushes to \<open>symbols\<close> at one node.\<close>

fun nodeSymbols :: "ts_node \<Rightarrow> string list" where
  "nodeSymbols (FunctionDeclaration ms (Some name) cs) =
     (if isExported ms then [''function:'' @ name] else [])"
| "nodeSymbols (ClassDeclaration ms (Some name) cs) =
     (if isExported ms then [''class:'' @ name] else [])"
| "nodeSymbols (VariableStatement ms decls) =
     (if isExported ms then concat (map declaredVar decls) else [])"
| "nodeSymbols n = []"

fun firstStringArg :: "ts_node list \<Rightarrow> string list" where
  "firstStringArg (StringLiteral s # args) = [s]"
| "firstStringArg args = []"

text \<open>What \<open>visit\<close> pushes to \<open>imports\<close> at one node.\<close>

fun nodeImports :: "ts_node \<Rightarrow> string list" where
  "nodeImports (ImportDeclaration cs (StringLiteral s)) = [s]"
| "nodeImports (ExportDeclaration cs (Some (StringLiteral s))) = [s]"
| "nodeImports (CallExpression ImportKeyword targs args) = firstStringArg args"
| "nodeImports (CallExpression (Identifier f) targs args) =
     (if f = ''require'' then firstStringArg args else [])"
| "nodeImports n = []"

function visit :: "ts_node \<Rightarrow> string list \<times> string list" where
  "visit node =
     (let rs = map visit (forEachChild node)
      in (nodeImports node @ concat (map fst rs), nodeSymbols node @ concat (map snd rs)))"
  by pat_completeness auto
termination
proof (relation "measure size")
  fix node c :: ts_node
  assume c: "c \<in> set (forEachChild node)"
  have in_list: "c \<in> set cs \<Longrightarrow> size c \<le> size_list size cs" for cs
    by (induction cs) auto
  have "size c < size node"
  proof (cases node)
    case (ExportDeclaration cs spec)
    with c show ?thesis
      by (cases spec) (auto dest: in_list)
  qed (use c in \<open>auto dest: in_list\<close>)
  then show "(c, node) \<in> measure size"
    by simp
qed simp

declare visit.simps [simp del]

section \<open>The graph store\<close>

record FileNode =
  path :: string
  "imports" :: "string list"
  importedBy :: "string list"
  symbols :: "string list"

text \<open>
  \<open>Map<string, FileNode>\<close> iterates in insertion order, so the map is a list of
  entries: \<open>set\<close> replaces the value of a key that is present, where it stands, and
  appends a new key. A node is an object that the code mutates through the map;
  \<open>updateNode\<close> is that mutation.
\<close>

type_synonym node_map = "(string \<times> FileNode) list"

definition nodes_get :: "node_map \<Rightarrow> string \<Rightarrow> FileNode option" where
  "nodes_get m k = map_of m k"

definition nodes_has :: "node_map \<Rightarrow> string \<Rightarrow> bool" where
  "nodes_has m k = (map_of m k \<noteq> None)"

fun nodes_set :: "node_map \<Rightarrow> string \<Rightarrow> FileNode \<Rightarrow> node_map" where
  "nodes_set [] k v = [(k, v)]"
| "nodes_set ((k', v') # m) k v = (if k' = k then (k, v) # m else (k', v') # nodes_set m k v)"

definition updateNode :: "node_map \<Rightarrow> string \<Rightarrow> (FileNode \<Rightarrow> FileNode) \<Rightarrow> node_map" where
  "updateNode m k f = map (\<lambda>(k', v). if k' = k then (k', f v) else (k', v)) m"

record graph_state =
  nodes :: node_map
  rootDir :: string

section \<open>Resolution\<close>

definition extensions :: "string list" where
  "extensions = [''.ts'', ''.js'', ''.tsx'', ''.jsx'', ''.json'', ''/index.ts'', ''/index.js'']"

definition resolvePath :: "string \<Rightarrow> node_map \<Rightarrow> string \<Rightarrow> string \<Rightarrow> string option" where
  "resolvePath cwd m dir relativePath =
     (let absolutePath = path_resolve cwd [dir, relativePath]
      in if nodes_has m absolutePath then Some absolutePath
         else (case find (\<lambda>ext. nodes_has m (absolutePath @ ext)) extensions of
                 Some ext \<Rightarrow> Some (absolutePath @ ext)
               | None \<Rightarrow>
                   if endsWith absolutePath ''.js'' then
                     (if nodes_has m (replaceJsExt absolutePath ''.ts'')
                        then Some (replaceJsExt absolutePath ''.ts'')
                      else if nodes_has m (replaceJsExt absolutePath ''.tsx'')
                        then Some (replaceJsExt absolutePath ''.tsx'')
                      else if nodes_has m (replaceJsExt absolutePath ''.jsx'')
                        then Some (replaceJsExt absolutePath ''.jsx'')
                      else None)
                   else None))"

section \<open>Analysis of one file\<close>

text \<open>The choice of the base directory in the loop over \<open>imports\<close> of \<open>parseFile\<close>.\<close>

definition resolveImport :: "string \<Rightarrow> graph_state \<Rightarrow> string \<Rightarrow> string \<Rightarrow> string option" where
  "resolveImport cwd st filePath importPath =
     (if startsWith importPath ''.''
      then resolvePath cwd (nodes st) (path_dirname filePath) importPath
      else resolvePath cwd (nodes st) (rootDir st) importPath)"

text \<open>One round of the loop over \<open>imports\<close>: the edge is recorded on both nodes, each
  list guarded by its own \<open>includes\<close> test. \<open>parseFile\<close> enters the loop only when the
  node of \<open>filePath\<close> exists, so the first \<open>None\<close> branch is never taken from there; the
  second is the optional chaining on \<open>this.nodes.get(resolvedPath)\<close>. The test
  \<open>resolvedPath \<noteq> []\<close> is the truthiness of a string.\<close>

definition recordImport :: "string \<Rightarrow> string \<Rightarrow> graph_state \<Rightarrow> string \<Rightarrow> graph_state" where
  "recordImport cwd filePath st importPath =
     (case resolveImport cwd st filePath importPath of
        None \<Rightarrow> st
      | Some resolvedPath \<Rightarrow>
          if resolvedPath \<noteq> [] \<and> nodes_has (nodes st) resolvedPath then
            (let m1 = (case nodes_get (nodes st) filePath of
                         None \<Rightarrow> nodes st
                       | Some currentNode \<Rightarrow>
                           if resolvedPath \<in> set (imports currentNode) then nodes st
                           else updateNode (nodes st) filePath
                                  (\<lambda>n. n\<lparr>imports := imports n @ [resolvedPath]\<rparr>));
                 m2 = (case nodes_get m1 resolvedPath of
                         None \<Rightarrow> m1
                       | Some target \<Rightarrow>
                           if filePath \<in> set (importedBy target) then m1
                           else updateNode m1 resolvedPath
                                  (\<lambda>n. n\<lparr>importedBy := importedBy n @ [filePath]\<rparr>))
             in st\<lparr>nodes := m2\<rparr>)
          else st)"

text \<open>
  \<open>readParsed\<close> is \<open>fs.readFile\<close> followed by \<open>ts.createSourceFile\<close>: the tree of a
  file, or \<open>None\<close> when one of the two throws. The \<open>catch\<close> of \<open>parseFile\<close> logs the
  error and returns; nothing has been written to the graph at that point.
\<close>

definition parseFile :: "string \<Rightarrow> (string \<Rightarrow> ts_node option) \<Rightarrow> graph_state \<Rightarrow> string \<Rightarrow> graph_state" where
  "parseFile cwd readParsed st filePath =
     (case readParsed filePath of
        None \<Rightarrow> st
      | Some sourceFile \<Rightarrow>
          (case visit sourceFile of
             (imps, syms) \<Rightarrow>
               (case nodes_get (nodes st) filePath of
                  None \<Rightarrow> st
                | Some currentNode \<Rightarrow>
                    foldl (recordImport cwd filePath)
                      (st\<lparr>nodes := updateNode (nodes st) filePath (\<lambda>n. n\<lparr>symbols := syms\<rparr>)\<rparr>)
                      imps)))"

section \<open>Build\<close>

record build_result =
  nodeCount :: nat
  totalFiles :: nat

definition initNode :: "string \<Rightarrow> FileNode" where
  "initNode file = \<lparr>path = file, imports = [], importedBy = [], symbols = []\<rparr>"

definition initNodes :: "node_map \<Rightarrow> string list \<Rightarrow> node_map" where
  "initNodes m files = foldl (\<lambda>m file. nodes_set m file (initNode file)) m files"

definition build ::
  "string \<Rightarrow> dirent list option \<Rightarrow> (string \<Rightarrow> ts_node option) \<Rightarrow> string
     \<Rightarrow> (io_error + build_result) \<times> graph_state" where
  "build cwd tree readParsed rootDirArg =
     (let root = path_resolve cwd [rootDirArg];
          st0 = \<lparr>nodes = [], rootDir = root\<rparr>
      in case getAllFiles cwd root tree of
           Inl e \<Rightarrow> (Inl e, st0)
         | Inr files \<Rightarrow>
             (let st1 = st0\<lparr>nodes := initNodes [] files\<rparr>;
                  st2 = foldl (parseFile cwd readParsed) st1 files
              in (Inr \<lparr>nodeCount = length (nodes st2), totalFiles = length files\<rparr>, st2)))"

section \<open>Queries\<close>

definition getRelationships :: "string \<Rightarrow> graph_state \<Rightarrow> string \<Rightarrow> FileNode option" where
  "getRelationships cwd st filePath =
     (let absolutePath = path_resolve cwd [rootDir st, filePath];
          node = (case nodes_get (nodes st) absolutePath of
                    Some n \<Rightarrow> Some n
                  | None \<Rightarrow>
                      (case find (\<lambda>(key, v). endsWith key filePath) (nodes st) of
                         Some (key, v) \<Rightarrow> Some v
                       | None \<Rightarrow> None))
      in case node of
           None \<Rightarrow> None
         | Some n \<Rightarrow>
             Some \<lparr>path = path n,
                   imports = map (path_relative cwd (rootDir st)) (imports n),
                   importedBy = map (path_relative cwd (rootDir st)) (importedBy n),
                   symbols = symbols n\<rparr>)"

text \<open>\<open>Array.prototype.sort\<close> is stable: insertion from the right with the comparator
  keeps the order of elements that compare equal.\<close>

fun insertBy :: "('a \<Rightarrow> 'a \<Rightarrow> int) \<Rightarrow> 'a \<Rightarrow> 'a list \<Rightarrow> 'a list" where
  "insertBy cmp x [] = [x]"
| "insertBy cmp x (y # ys) = (if cmp x y \<le> 0 then x # y # ys else y # insertBy cmp x ys)"

definition sortBy :: "('a \<Rightarrow> 'a \<Rightarrow> int) \<Rightarrow> 'a list \<Rightarrow> 'a list" where
  "sortBy cmp xs = foldr (insertBy cmp) xs []"

definition byImportedBy :: "FileNode \<Rightarrow> FileNode \<Rightarrow> int" where
  "byImportedBy a b = int (length (importedBy b)) - int (length (importedBy a))"

record referenced =
  "file" :: string
  referencedBy :: nat

record summary =
  root :: string
  fileCount :: nat
  mostReferencedFiles :: "referenced list"

definition getSummary :: "string \<Rightarrow> graph_state \<Rightarrow> summary" where
  "getSummary cwd st =
     \<lparr>root = rootDir st,
      fileCount = length (nodes st),
      mostReferencedFiles =
        map (\<lambda>n. \<lparr>file = path_relative cwd (rootDir st) (path n),
                  referencedBy = length (importedBy n)\<rparr>)
          (take 5 (sortBy byImportedBy (map snd (nodes st))))\<rparr>"

section \<open>Notions used in the proofs\<close>

text \<open>\<open>pushNew\<close> is the guarded \<open>push\<close> of \<open>parseFile\<close>; \<open>addEdge\<close> is what one round of
  its loop does to the map when the reference resolves; \<open>graph_inv\<close> is the invariant
  of the graph store; \<open>fresh_nodes\<close> describes the map after the first phase of
  \<open>build\<close>.\<close>

definition pushNew :: "string \<Rightarrow> string list \<Rightarrow> string list" where
  "pushNew x xs = (if x \<in> set xs then xs else xs @ [x])"

definition addEdge :: "node_map \<Rightarrow> string \<Rightarrow> string \<Rightarrow> node_map" where
  "addEdge m f r =
     updateNode (updateNode m f (\<lambda>n. n\<lparr>imports := pushNew r (imports n)\<rparr>)) r
       (\<lambda>n. n\<lparr>importedBy := pushNew f (importedBy n)\<rparr>)"

definition graph_inv :: "node_map \<Rightarrow> bool" where
  "graph_inv m \<longleftrightarrow>
     distinct (map fst m) \<and>
     (\<forall>k n. map_of m k = Some n \<longrightarrow>
        path n = k \<and> distinct (imports n) \<and> distinct (importedBy n) \<and>
        (\<forall>p \<in> set (imports n). \<exists>t. map_of m p = Some t \<and> k \<in> set (importedBy t)) \<and>
        (\<forall>p \<in> set (importedBy n). \<exists>t. map_of m p = Some t \<and> k \<in> set (imports t)))"

definition fresh_nodes :: "node_map \<Rightarrow> bool" where
  "fresh_nodes m \<longleftrightarrow> distinct (map fst m) \<and> (\<forall>(k, n) \<in> set m. n = initNode k)"

section \<open>Notions of the specification\<close>

text \<open>The precedence of resolution in the words of the specification: the candidates for a
  base path, most literal first. The first candidate that is a discovered file is the
  result.\<close>

definition spec_candidates :: "string \<Rightarrow> string list" where
  "spec_candidates base =
     [base,
      base @ ''.ts'', base @ ''.js'', base @ ''.tsx'', base @ ''.jsx'', base @ ''.json'',
      base @ ''/index.ts'', base @ ''/index.js'']
     @ (if endsWith base ''.js''
        then [take (length base - 3) base @ ''.ts'', take (length base - 3) base @ ''.tsx'',
              take (length base - 3) base @ ''.jsx'']
        else [])"

text \<open>The record that \<open>getRelationships\<close> returns for a node: both lists root-relative.\<close>

abbreviation rootRelative :: "string \<Rightarrow> graph_state \<Rightarrow> FileNode \<Rightarrow> FileNode" where
  "rootRelative cwd st n \<equiv>
     \<lparr>path = path n,
      imports = map (path_relative cwd (rootDir st)) (imports n),
      importedBy = map (path_relative cwd (rootDir st)) (importedBy n),
      symbols = symbols n\<rparr>"

text \<open>A name that \<open>readdir\<close> can return: not empty, without a separator, not a dot entry.\<close>

definition validName :: "string \<Rightarrow> bool" where
  "validName name = (name \<noteq> [] \<and> CHR ''/'' \<notin> set name \<and> name \<noteq> ''.'' \<and> name \<noteq> ''..'')"

fun validTree :: "dirent list option \<Rightarrow> bool"
  and validEntries :: "dirent list \<Rightarrow> bool"
where
  "validTree None = True"
| "validTree (Some entries) = validEntries entries"
| "validEntries [] = True"
| "validEntries (FileEnt name # entries) = (validName name \<and> validEntries entries)"
| "validEntries (DirEnt name sub # entries) =
     (validName name \<and> validTree sub \<and> validEntries entries)"

text \<open>The absolute paths in normal form: a slash followed by valid names, separated by slashes.\<close>

definition normalPath :: "string \<Rightarrow> string list \<Rightarrow> bool" where
  "normalPath p segs = (p = ''/'' @ joinSegs segs \<and> (\<forall>s \<in> set segs. validName s))"


text \<open>All nodes of a tree, the node itself first.\<close>

function subnodes :: "ts_node \<Rightarrow> ts_node list" where
  "subnodes node = node # concat (map subnodes (forEachChild node))"
  by pat_completeness auto
termination
proof (relation "measure size")
  fix node c :: ts_node
  assume c: "c \<in> set (forEachChild node)"
  have in_list: "c \<in> set cs \<Longrightarrow> size c \<le> size_list size cs" for cs
    by (induction cs) auto
  have "size c < size node"
  proof (cases node)
    case (ExportDeclaration cs spec)
    with c show ?thesis
      by (cases spec) (auto dest: in_list)
  qed (use c in \<open>auto dest: in_list\<close>)
  then show "(c, node) \<in> measure size"
    by simp
qed simp

declare subnodes.simps [simp del]

text \<open>The four shapes that the specification counts as a reference to the module \<open>s\<close>: an
  import declaration and a re-export declaration whose module specifier is the literal
  \<open>s\<close>, a dynamic \<open>import\<close> call and a \<open>require\<close> call whose first argument is the
  literal \<open>s\<close>.\<close>

definition isReference :: "ts_node \<Rightarrow> string \<Rightarrow> bool" where
  "isReference n s \<longleftrightarrow>
     (\<exists>cs. n = ImportDeclaration cs (StringLiteral s)) \<or>
     (\<exists>cs. n = ExportDeclaration cs (Some (StringLiteral s))) \<or>
     (\<exists>targs args. n = CallExpression ImportKeyword targs (StringLiteral s # args)) \<or>
     (\<exists>targs args. n = CallExpression (Identifier ''require'') targs (StringLiteral s # args))"

text \<open>Every import of a node comes from a reference of its file.\<close>

definition imports_traced :: "string \<Rightarrow> (string \<Rightarrow> ts_node option) \<Rightarrow> graph_state \<Rightarrow> bool" where
  "imports_traced cwd rp st \<longleftrightarrow>
     (\<forall>k n p. map_of (nodes st) k = Some n \<longrightarrow> p \<in> set (imports n) \<longrightarrow>
        (\<exists>t s. rp k = Some t \<and> s \<in> set (fst (visit t)) \<and> resolveImport cwd st k s = Some p))"

section \<open>Projects used for the examples\<close>

text \<open>The project of the repository's tests: the directory \<open>/app\<close> holds \<open>index.ts\<close>,
  \<open>utils.ts\<close> and \<open>oldUtils.ts\<close>; \<open>index.ts\<close> imports \<open>./utils\<close>, the other two files are
  empty. \<open>app_graph\<close> is the graph that \<open>build\<close> computes for it.\<close>

definition app_tree :: "dirent list option" where
  "app_tree = Some [FileEnt ''index.ts'', FileEnt ''utils.ts'', FileEnt ''oldUtils.ts'']"

definition app_read :: "string \<Rightarrow> ts_node option" where
  "app_read p =
     (if p = ''/app/index.ts''
      then Some (SourceFile ''import { something } from './utils';''
                   [ImportDeclaration [OtherNode []] (StringLiteral ''./utils'')])
      else Some (SourceFile [] []))"

definition app_graph :: graph_state where
  "app_graph =
     \<lparr>nodes =
        [(''/app/index.ts'', \<lparr>path = ''/app/index.ts'', imports = [''/app/utils.ts''],
                              importedBy = [], symbols = []\<rparr>),
         (''/app/utils.ts'', \<lparr>path = ''/app/utils.ts'', imports = [],
                              importedBy = [''/app/index.ts''], symbols = []\<rparr>),
         (''/app/oldUtils.ts'', \<lparr>path = ''/app/oldUtils.ts'', imports = [],
                              importedBy = [], symbols = []\<rparr>)],
      rootDir = ''/app''\<rparr>"

text \<open>\<open>index.ts\<close> names \<open>utils.ts\<close> three times, in three forms.\<close>

definition twice_read :: "string \<Rightarrow> ts_node option" where
  "twice_read p =
     (if p = ''/app/index.ts''
      then Some (SourceFile
                   ''import './utils'; require('./utils.js'); export * from './utils';''
                   [ImportDeclaration [] (StringLiteral ''./utils''),
                    OtherNode [CallExpression (Identifier ''require'') [] [StringLiteral ''./utils.js'']],
                    ExportDeclaration [] (Some (StringLiteral ''./utils''))])
      else Some (SourceFile [] []))"

text \<open>\<open>index.ts\<close> imports \<open>./utils\<close>, a file that does not exist and a package.\<close>

definition ghost_read :: "string \<Rightarrow> ts_node option" where
  "ghost_read p =
     (if p = ''/app/index.ts''
      then Some (SourceFile ''import './utils'; import './ghost'; import 'typescript';''
                   [ImportDeclaration [] (StringLiteral ''./utils''),
                    ImportDeclaration [] (StringLiteral ''./ghost''),
                    ImportDeclaration [] (StringLiteral ''typescript'')])
      else Some (SourceFile [] []))"

text \<open>A graph in which a reference has several candidates; only the keys matter.\<close>

definition tie_graph :: graph_state where
  "tie_graph =
     \<lparr>nodes = map (\<lambda>k. (k, initNode k))
        [''/app/src/main.ts'', ''/app/src/utils.js'', ''/app/src/utils.ts'',
         ''/app/src/utils/index.ts'', ''/app/src/lib.ts'', ''/app/src/lib.js.ts'',
         ''/app/src/only.tsx'', ''/app/src/only.jsx'', ''/app/utils.json'',
         ''/app/utils/index.js''],
      rootDir = ''/app''\<rparr>"

text \<open>Seven nodes with 0, 2, 1, 3, 0, 1 and 2 inbound edges.\<close>

definition hub_graph :: graph_state where
  "hub_graph =
     \<lparr>nodes =
        [(''/p/a.ts'', \<lparr>path = ''/p/a.ts'', imports = [''/p/b.ts'', ''/p/c.ts'', ''/p/d.ts''],
                        importedBy = [], symbols = []\<rparr>),
         (''/p/b.ts'', \<lparr>path = ''/p/b.ts'', imports = [''/p/d.ts''],
                        importedBy = [''/p/a.ts'', ''/p/e.ts''], symbols = []\<rparr>),
         (''/p/c.ts'', \<lparr>path = ''/p/c.ts'', imports = [''/p/d.ts'', ''/p/g.ts''],
                        importedBy = [''/p/a.ts''], symbols = []\<rparr>),
         (''/p/d.ts'', \<lparr>path = ''/p/d.ts'', imports = [],
                        importedBy = [''/p/a.ts'', ''/p/b.ts'', ''/p/c.ts''], symbols = []\<rparr>),
         (''/p/e.ts'', \<lparr>path = ''/p/e.ts'', imports = [''/p/b.ts'', ''/p/f.ts'', ''/p/g.ts''],
                        importedBy = [], symbols = []\<rparr>),
         (''/p/f.ts'', \<lparr>path = ''/p/f.ts'', imports = [],
                        importedBy = [''/p/e.ts''], symbols = []\<rparr>),
         (''/p/g.ts'', \<lparr>path = ''/p/g.ts'', imports = [],
                        importedBy = [''/p/c.ts'', ''/p/e.ts''], symbols = []\<rparr>)],
      rootDir = ''/p''\<rparr>"




text \<open>A project with a coverage report, a tool cache and installed packages beside its
  sources.\<close>

definition coverage_tree :: "dirent list option" where
  "coverage_tree =
     Some [FileEnt ''index.ts'',
           FileEnt ''README.md'',
           DirEnt ''coverage'' (Some [FileEnt ''prettify.js'']),
           DirEnt ''.gemini'' (Some [FileEnt ''data.json'']),
           DirEnt ''node_modules'' (Some [FileEnt ''dep.js''])]"

text \<open>The file of the specification's scenario: a commented import of \<open>./old\<close>, a string
  that reads like an import of \<open>./old\<close>, and an import of \<open>./real\<close>. Both \<open>old.ts\<close> and
  \<open>real.ts\<close> exist and are empty.\<close>

definition old_tree :: "dirent list option" where
  "old_tree = Some [FileEnt ''index.ts'', FileEnt ''old.ts'', FileEnt ''real.ts'']"

definition old_text :: string where
  \<open>old_text =
     ''// import { x } from './old';'' @ [CHR 0x0A] @
     ''const note = "import { x } from './old';", path = './old';'' @ [CHR 0x0A] @
     ''import { y } from './real';''\<close>

definition old_read :: "string \<Rightarrow> ts_node option" where
  "old_read p =
     (if p = ''/app/index.ts''
      then Some (SourceFile old_text
                   [VariableStatement []
                      [VariableDeclaration (Identifier ''note'')
                         [StringLiteral ''import { x } from './old';''],
                       VariableDeclaration (Identifier ''path'') [StringLiteral ''./old'']],
                    ImportDeclaration [OtherNode [OtherNode [OtherNode [Identifier ''y'']]]]
                      (StringLiteral ''./real'')])
      else Some (SourceFile [] []))"

definition old_graph :: graph_state where
  "old_graph =
     \<lparr>nodes =
        [(''/app/index.ts'', \<lparr>path = ''/app/index.ts'', imports = [''/app/real.ts''],
                              importedBy = [], symbols = []\<rparr>),
         (''/app/old.ts'', \<lparr>path = ''/app/old.ts'', imports = [],
                            importedBy = [], symbols = []\<rparr>),
         (''/app/real.ts'', \<lparr>path = ''/app/real.ts'', imports = [],
                             importedBy = [''/app/index.ts''], symbols = []\<rparr>)],
      rootDir = ''/app''\<rparr>"

section \<open>The node map\<close>

lemma keys_updateNode [simp]: "map fst (updateNode m k f) = map fst m"
  by (induction m) (auto simp: updateNode_def)

lemma map_of_updateNode:
  "map_of (updateNode m k f) k' = (if k' = k then map_option f (map_of m k) else map_of m k')"
  by (induction m) (auto simp: updateNode_def)

lemma updateNode_cong:
  assumes "distinct (map fst m)" and "map_of m k = Some n" and "f n = g n"
  shows "updateNode m k f = updateNode m k g"
proof -
  have "v = n" if "(k, v) \<in> set m" for v
    using that assms(1,2) by (simp add: map_of_is_SomeI)
  with assms(3) show ?thesis
    by (auto simp: updateNode_def)
qed

lemma updateNode_ident: "updateNode m k (\<lambda>n. n) = m"
  by (induction m) (auto simp: updateNode_def)

lemma nodes_has_iff: "nodes_has m k \<longleftrightarrow> k \<in> set (map fst m)"
  by (simp add: nodes_has_def map_of_eq_None_iff)

lemma recordImport_cases:
  assumes "distinct (map fst (nodes st))" and "nodes_has (nodes st) filePath"
  shows "recordImport cwd filePath st importPath = st \<or>
         (\<exists>r. resolveImport cwd st filePath importPath = Some r \<and> r \<noteq> [] \<and>
              nodes_has (nodes st) r \<and>
              recordImport cwd filePath st importPath = st\<lparr>nodes := addEdge (nodes st) filePath r\<rparr>)"
proof (cases "resolveImport cwd st filePath importPath")
  case None
  then show ?thesis by (simp add: recordImport_def)
next
  case (Some r)
  show ?thesis
  proof (cases "r \<noteq> [] \<and> nodes_has (nodes st) r")
    case False
    with Some show ?thesis by (auto simp: recordImport_def)
  next
    case True
    let ?m = "nodes st"
    let ?fi = "\<lambda>n. n\<lparr>imports := pushNew r (imports n)\<rparr>"
    let ?fb = "\<lambda>n. n\<lparr>importedBy := pushNew filePath (importedBy n)\<rparr>"
    from assms(2) obtain F where F: "map_of ?m filePath = Some F"
      by (auto simp: nodes_has_def)
    define m1 where "m1 = (if r \<in> set (imports F) then ?m
       else updateNode ?m filePath (\<lambda>n. n\<lparr>imports := imports n @ [r]\<rparr>))"
    have m1: "m1 = updateNode ?m filePath ?fi"
    proof (cases "r \<in> set (imports F)")
      case True
      then have "?fi F = F" by (simp add: pushNew_def)
      with assms(1) F have "updateNode ?m filePath ?fi = updateNode ?m filePath (\<lambda>n. n)"
        by (intro updateNode_cong) auto
      with True show ?thesis by (simp add: m1_def updateNode_ident)
    next
      case False
      then have "?fi F = F\<lparr>imports := imports F @ [r]\<rparr>" by (simp add: pushNew_def)
      with assms(1) F have "updateNode ?m filePath ?fi
          = updateNode ?m filePath (\<lambda>n. n\<lparr>imports := imports n @ [r]\<rparr>)"
        by (intro updateNode_cong) auto
      with False show ?thesis by (simp add: m1_def)
    qed
    have d1: "distinct (map fst m1)" using assms(1) by (simp add: m1)
    from True obtain T where T: "map_of m1 r = Some T"
      by (cases "map_of m1 r") (auto simp: m1 nodes_has_def map_of_updateNode split: if_splits)
    define m2 where "m2 = (if filePath \<in> set (importedBy T) then m1
       else updateNode m1 r (\<lambda>n. n\<lparr>importedBy := importedBy n @ [filePath]\<rparr>))"
    have m2: "m2 = updateNode m1 r ?fb"
    proof (cases "filePath \<in> set (importedBy T)")
      case True
      then have "?fb T = T" by (simp add: pushNew_def)
      with d1 T have "updateNode m1 r ?fb = updateNode m1 r (\<lambda>n. n)"
        by (intro updateNode_cong) auto
      with True show ?thesis by (simp add: m2_def updateNode_ident)
    next
      case False
      then have "?fb T = T\<lparr>importedBy := importedBy T @ [filePath]\<rparr>" by (simp add: pushNew_def)
      with d1 T have "updateNode m1 r ?fb
          = updateNode m1 r (\<lambda>n. n\<lparr>importedBy := importedBy n @ [filePath]\<rparr>)"
        by (intro updateNode_cong) auto
      with False show ?thesis by (simp add: m2_def)
    qed
    have "recordImport cwd filePath st importPath = st\<lparr>nodes := m2\<rparr>"
      using Some True F T by (simp add: recordImport_def nodes_get_def m1_def m2_def)
    with Some True show ?thesis by (simp add: m1 m2 addEdge_def)
  qed
qed

lemma set_pushNew [simp]: "set (pushNew x xs) = insert x (set xs)"
  by (auto simp: pushNew_def)

lemma distinct_pushNew [simp]: "distinct (pushNew x xs) = distinct xs"
  by (auto simp: pushNew_def)

lemma map_of_addEdge:
  "map_of (addEdge m f r) k =
     map_option (\<lambda>n. n\<lparr>imports := (if k = f then pushNew r (imports n) else imports n),
                        importedBy := (if k = r then pushNew f (importedBy n) else importedBy n)\<rparr>)
       (map_of m k)"
  by (cases "map_of m k") (auto simp: addEdge_def map_of_updateNode)

lemma keys_addEdge [simp]: "map fst (addEdge m f r) = map fst m"
  by (simp add: addEdge_def)

lemma graph_inv_addEdge:
  assumes inv: "graph_inv m" and f: "nodes_has m f" and r: "nodes_has m r"
  shows "graph_inv (addEdge m f r)"
proof -
  from f obtain F where F: "map_of m f = Some F" by (auto simp: nodes_has_def)
  from r obtain R where R: "map_of m r = Some R" by (auto simp: nodes_has_def)
  have props: "path n = k \<and> distinct (imports n) \<and> distinct (importedBy n) \<and>
        (\<forall>p \<in> set (imports n). \<exists>t. map_of m p = Some t \<and> k \<in> set (importedBy t)) \<and>
        (\<forall>p \<in> set (importedBy n). \<exists>t. map_of m p = Some t \<and> k \<in> set (imports t))"
    if "map_of m k = Some n" for k n
    using inv that unfolding graph_inv_def by blast
  show ?thesis
    unfolding graph_inv_def
  proof (intro conjI allI impI)
    show "distinct (map fst (addEdge m f r))"
      using inv by (simp add: graph_inv_def)
  next
    fix k n assume "map_of (addEdge m f r) k = Some n"
    then obtain n0 where n0: "map_of m k = Some n0"
      and n: "n = n0\<lparr>imports := (if k = f then pushNew r (imports n0) else imports n0),
                     importedBy := (if k = r then pushNew f (importedBy n0) else importedBy n0)\<rparr>"
      by (auto simp: map_of_addEdge)
    note p0 = props [OF n0]
    show "path n = k" using p0 n by simp
    show "distinct (imports n)" using p0 n by simp
    show "distinct (importedBy n)" using p0 n by simp
    show "\<forall>p \<in> set (imports n). \<exists>t. map_of (addEdge m f r) p = Some t \<and> k \<in> set (importedBy t)"
    proof
      fix p assume p: "p \<in> set (imports n)"
      show "\<exists>t. map_of (addEdge m f r) p = Some t \<and> k \<in> set (importedBy t)"
      proof (cases "p \<in> set (imports n0)")
        case True
        with p0 obtain t where "map_of m p = Some t" "k \<in> set (importedBy t)" by blast
        then show ?thesis by (simp add: map_of_addEdge)
      next
        case False
        with p n have "k = f" "p = r" by (auto split: if_splits)
        with R show ?thesis by (simp add: map_of_addEdge)
      qed
    qed
    show "\<forall>p \<in> set (importedBy n). \<exists>t. map_of (addEdge m f r) p = Some t \<and> k \<in> set (imports t)"
    proof
      fix p assume p: "p \<in> set (importedBy n)"
      show "\<exists>t. map_of (addEdge m f r) p = Some t \<and> k \<in> set (imports t)"
      proof (cases "p \<in> set (importedBy n0)")
        case True
        with p0 obtain t where "map_of m p = Some t" "k \<in> set (imports t)" by blast
        then show ?thesis by (simp add: map_of_addEdge)
      next
        case False
        with p n have "k = r" "p = f" by (auto split: if_splits)
        with F show ?thesis by (simp add: map_of_addEdge)
      qed
    qed
  qed
qed

section \<open>Invariants of \<open>parseFile\<close> and \<open>build\<close>\<close>

lemma recordImport_keeps:
  assumes "graph_inv (nodes st)" and "nodes_has (nodes st) filePath"
  shows "graph_inv (nodes (recordImport cwd filePath st importPath)) \<and>
         map fst (nodes (recordImport cwd filePath st importPath)) = map fst (nodes st) \<and>
         rootDir (recordImport cwd filePath st importPath) = rootDir st"
proof -
  from assms(1) have "distinct (map fst (nodes st))" by (simp add: graph_inv_def)
  from recordImport_cases [OF this assms(2), of cwd importPath]
  show ?thesis
  proof
    assume "recordImport cwd filePath st importPath = st"
    with assms(1) show ?thesis by simp
  next
    assume "\<exists>r. resolveImport cwd st filePath importPath = Some r \<and> r \<noteq> [] \<and>
              nodes_has (nodes st) r \<and>
              recordImport cwd filePath st importPath = st\<lparr>nodes := addEdge (nodes st) filePath r\<rparr>"
    then obtain r where "nodes_has (nodes st) r"
      and "recordImport cwd filePath st importPath = st\<lparr>nodes := addEdge (nodes st) filePath r\<rparr>"
      by blast
    with assms show ?thesis by (simp add: graph_inv_addEdge)
  qed
qed

lemma recordImports_keeps:
  assumes "graph_inv (nodes st)" and "nodes_has (nodes st) filePath"
  shows "graph_inv (nodes (foldl (recordImport cwd filePath) st imps)) \<and>
         map fst (nodes (foldl (recordImport cwd filePath) st imps)) = map fst (nodes st) \<and>
         rootDir (foldl (recordImport cwd filePath) st imps) = rootDir st"
  using assms
proof (induction imps arbitrary: st)
  case Nil
  then show ?case by simp
next
  case (Cons i imps)
  let ?st = "recordImport cwd filePath st i"
  from recordImport_keeps [OF Cons.prems, of cwd i]
  have 1: "graph_inv (nodes ?st)" and 2: "map fst (nodes ?st) = map fst (nodes st)"
    and 3: "rootDir ?st = rootDir st" by auto
  from 2 Cons.prems(2) have "nodes_has (nodes ?st) filePath" by (simp add: nodes_has_iff)
  from Cons.IH [OF 1 this] 2 3 show ?case by simp
qed

lemma graph_inv_symbols:
  assumes "graph_inv m"
  shows "graph_inv (updateNode m k (\<lambda>n. n\<lparr>symbols := syms\<rparr>))"
proof -
  have eq: "map_of (updateNode m k (\<lambda>n. n\<lparr>symbols := syms\<rparr>)) k' = Some n \<Longrightarrow>
        \<exists>n0. map_of m k' = Some n0 \<and> path n = path n0 \<and> imports n = imports n0 \<and> importedBy n = importedBy n0"
    for k' n
    by (auto simp: map_of_updateNode split: if_splits)
  have ex: "map_of m p = Some t \<Longrightarrow>
        \<exists>t'. map_of (updateNode m k (\<lambda>n. n\<lparr>symbols := syms\<rparr>)) p = Some t' \<and>
             importedBy t' = importedBy t \<and> imports t' = imports t" for p t
    by (auto simp: map_of_updateNode)
  show ?thesis
    unfolding graph_inv_def
  proof (intro conjI allI impI)
    show "distinct (map fst (updateNode m k (\<lambda>n. n\<lparr>symbols := syms\<rparr>)))"
      using assms by (simp add: graph_inv_def)
  next
    fix k' n assume "map_of (updateNode m k (\<lambda>n. n\<lparr>symbols := syms\<rparr>)) k' = Some n"
    from eq [OF this] obtain n0 where n0: "map_of m k' = Some n0" "path n = path n0"
      "imports n = imports n0" "importedBy n = importedBy n0" by blast
    from assms n0(1) have p0: "path n0 = k' \<and> distinct (imports n0) \<and> distinct (importedBy n0) \<and>
        (\<forall>p \<in> set (imports n0). \<exists>t. map_of m p = Some t \<and> k' \<in> set (importedBy t)) \<and>
        (\<forall>p \<in> set (importedBy n0). \<exists>t. map_of m p = Some t \<and> k' \<in> set (imports t))"
      unfolding graph_inv_def by blast
    show "path n = k'" "distinct (imports n)" "distinct (importedBy n)"
      using p0 n0 by simp_all
    show "\<forall>p \<in> set (imports n). \<exists>t. map_of (updateNode m k (\<lambda>n. n\<lparr>symbols := syms\<rparr>)) p = Some t \<and> k' \<in> set (importedBy t)"
      using p0 n0 ex by (metis)
    show "\<forall>p \<in> set (importedBy n). \<exists>t. map_of (updateNode m k (\<lambda>n. n\<lparr>symbols := syms\<rparr>)) p = Some t \<and> k' \<in> set (imports t)"
      using p0 n0 ex by (metis)
  qed
qed

lemma parseFile_keeps:
  assumes "graph_inv (nodes st)"
  shows "graph_inv (nodes (parseFile cwd readParsed st filePath)) \<and>
         map fst (nodes (parseFile cwd readParsed st filePath)) = map fst (nodes st) \<and>
         rootDir (parseFile cwd readParsed st filePath) = rootDir st"
proof (cases "readParsed filePath")
  case None
  with assms show ?thesis by (simp add: parseFile_def)
next
  case (Some sourceFile)
  obtain imps syms where v: "visit sourceFile = (imps, syms)" by (cases "visit sourceFile")
  show ?thesis
  proof (cases "nodes_get (nodes st) filePath")
    case None
    with Some v assms show ?thesis by (simp add: parseFile_def)
  next
    case (Some currentNode)
    let ?st = "st\<lparr>nodes := updateNode (nodes st) filePath (\<lambda>n. n\<lparr>symbols := syms\<rparr>)\<rparr>"
    have 1: "graph_inv (nodes ?st)" using assms by (simp add: graph_inv_symbols)
    have 2: "nodes_has (nodes ?st) filePath"
      using Some by (simp add: nodes_has_iff nodes_get_def) (metis domI dom_map_of_conv_image_fst)
    from recordImports_keeps [OF 1 2, of cwd imps] Some v \<open>readParsed filePath = _\<close>
    show ?thesis by (simp add: parseFile_def)
  qed
qed

lemma parseFiles_keeps:
  assumes "graph_inv (nodes st)"
  shows "graph_inv (nodes (foldl (parseFile cwd readParsed) st files)) \<and>
         map fst (nodes (foldl (parseFile cwd readParsed) st files)) = map fst (nodes st) \<and>
         rootDir (foldl (parseFile cwd readParsed) st files) = rootDir st"
  using assms
proof (induction files arbitrary: st)
  case Nil
  then show ?case by simp
next
  case (Cons f files)
  from parseFile_keeps [OF Cons.prems, of cwd readParsed f] Cons.IH [of "parseFile cwd readParsed st f"]
  show ?case by simp
qed

lemma map_of_nodes_set: "map_of (nodes_set m k v) = (map_of m)(k \<mapsto> v)"
  by (induction m) auto

lemma keys_nodes_set:
  "map fst (nodes_set m k v) = (if k \<in> set (map fst m) then map fst m else map fst m @ [k])"
  by (induction m) force+

lemma fresh_nodes_set: "fresh_nodes m \<Longrightarrow> fresh_nodes (nodes_set m k (initNode k))"
  by (induction m) (auto simp: fresh_nodes_def keys_nodes_set split: if_splits)

lemma initNodes_props:
  "fresh_nodes m \<Longrightarrow> fresh_nodes (initNodes m files) \<and>
     set (map fst (initNodes m files)) = set (map fst m) \<union> set files"
proof (induction files arbitrary: m)
  case Nil
  then show ?case by (simp add: initNodes_def)
next
  case (Cons f files)
  from Cons.IH [OF fresh_nodes_set [OF Cons.prems, of f]]
  show ?case by (auto simp: initNodes_def keys_nodes_set split: if_splits)
qed

lemma fresh_graph_inv: "fresh_nodes m \<Longrightarrow> graph_inv m"
  by (auto simp: fresh_nodes_def graph_inv_def initNode_def dest!: map_of_SomeD)

lemma build_success:
  assumes "build cwd tree readParsed rootDirArg = (Inr r, st)"
  shows "\<exists>files. getAllFiles cwd (path_resolve cwd [rootDirArg]) tree = Inr files \<and>
           graph_inv (nodes st) \<and> set (map fst (nodes st)) = set files \<and>
           rootDir st = path_resolve cwd [rootDirArg] \<and>
           r = \<lparr>nodeCount = length (nodes st), totalFiles = length files\<rparr>"
proof (cases "getAllFiles cwd (path_resolve cwd [rootDirArg]) tree")
  case (Inl e)
  with assms show ?thesis by (simp add: build_def Let_def)
next
  case (Inr files)
  let ?st1 = "\<lparr>nodes = initNodes [] files, rootDir = path_resolve cwd [rootDirArg]\<rparr>"
  have "fresh_nodes []" by (simp add: fresh_nodes_def)
  from initNodes_props [OF this, of files]
  have fresh: "fresh_nodes (nodes ?st1)" and keys: "set (map fst (nodes ?st1)) = set files"
    by simp_all
  from fresh have "graph_inv (nodes ?st1)" by (rule fresh_graph_inv)
  from parseFiles_keeps [OF this, of cwd readParsed files] keys
  have "graph_inv (nodes (foldl (parseFile cwd readParsed) ?st1 files))"
    "set (map fst (nodes (foldl (parseFile cwd readParsed) ?st1 files))) = set files"
    "rootDir (foldl (parseFile cwd readParsed) ?st1 files) = path_resolve cwd [rootDirArg]"
    by simp_all
  moreover from assms Inr
  have "st = foldl (parseFile cwd readParsed) ?st1 files"
    "r = \<lparr>nodeCount = length (nodes st), totalFiles = length files\<rparr>"
    by (auto simp: build_def Let_def)
  ultimately show ?thesis using Inr by simp
qed

section \<open>Claims\<close>

subsection \<open>Edge symmetry\<close>

text \<open>
  C1. Edge symmetry. After every build that returns, for all nodes \<open>A\<close> and \<open>B\<close> of the
  graph: \<open>B.path\<close> is in \<open>A.imports\<close> if and only if \<open>A.path\<close> is in \<open>B.importedBy\<close>.
\<close>

theorem build_symmetry:
  assumes "build cwd tree readParsed rootDirArg = (Inr r, st)"
    and "nodes_get (nodes st) a = Some A" and "nodes_get (nodes st) b = Some B"
  shows "path B \<in> set (imports A) \<longleftrightarrow> path A \<in> set (importedBy B)"
proof -
  from build_success [OF assms(1)] have inv: "graph_inv (nodes st)" by blast
  from assms(2,3) have A: "map_of (nodes st) a = Some A" and B: "map_of (nodes st) b = Some B"
    by (simp_all add: nodes_get_def)
  from inv A have pa: "path A = a"
    and ia: "\<forall>p \<in> set (imports A). \<exists>t. map_of (nodes st) p = Some t \<and> a \<in> set (importedBy t)"
    unfolding graph_inv_def by blast+
  from inv B have pb: "path B = b"
    and ib: "\<forall>p \<in> set (importedBy B). \<exists>t. map_of (nodes st) p = Some t \<and> b \<in> set (imports t)"
    unfolding graph_inv_def by blast+
  show ?thesis
  proof
    assume "path B \<in> set (imports A)"
    with pb ia obtain t where "map_of (nodes st) b = Some t" "a \<in> set (importedBy t)" by blast
    with B pa show "path A \<in> set (importedBy B)" by simp
  next
    assume "path A \<in> set (importedBy B)"
    with pa ib obtain t where "map_of (nodes st) a = Some t" "b \<in> set (imports t)" by blast
    with A pb show "path B \<in> set (imports A)" by simp
  qed
qed

lemma app_build:
  "build ''/'' app_tree app_read ''/app'' = (Inr \<lparr>nodeCount = 3, totalFiles = 3\<rparr>, app_graph)"
  by code_simp

theorem build_symmetry_witness:
  "build ''/'' app_tree app_read ''/app'' = (Inr \<lparr>nodeCount = 3, totalFiles = 3\<rparr>, app_graph) \<and>
   nodes_get (nodes app_graph) ''/app/index.ts''
     = Some \<lparr>path = ''/app/index.ts'', imports = [''/app/utils.ts''], importedBy = [], symbols = []\<rparr> \<and>
   nodes_get (nodes app_graph) ''/app/utils.ts''
     = Some \<lparr>path = ''/app/utils.ts'', imports = [], importedBy = [''/app/index.ts''], symbols = []\<rparr> \<and>
   (''/app/utils.ts'' \<in> set [''/app/utils.ts''] \<longleftrightarrow> ''/app/index.ts'' \<in> set [''/app/index.ts''])"
proof -
  have a: "nodes_get (nodes app_graph) ''/app/index.ts''
     = Some \<lparr>path = ''/app/index.ts'', imports = [''/app/utils.ts''], importedBy = [], symbols = []\<rparr>"
    by (simp add: app_graph_def nodes_get_def)
  have b: "nodes_get (nodes app_graph) ''/app/utils.ts''
     = Some \<lparr>path = ''/app/utils.ts'', imports = [], importedBy = [''/app/index.ts''], symbols = []\<rparr>"
    by (simp add: app_graph_def nodes_get_def)
  from build_symmetry [OF app_build a b] app_build a b show ?thesis
    by simp
qed

subsection \<open>Idempotence of edge recording\<close>

lemma nodes_has_keys: "map fst m' = map fst m \<Longrightarrow> nodes_has m' = nodes_has m"
  by (rule ext) (simp add: nodes_has_iff)

lemma resolveImport_keys:
  assumes "map fst (nodes st') = map fst (nodes st)" and "rootDir st' = rootDir st"
  shows "resolveImport cwd st' f i = resolveImport cwd st f i"
  unfolding resolveImport_def resolvePath_def nodes_has_keys [OF assms(1)] assms(2)
  by (rule refl)

lemma recordImport_keys: "map fst (nodes (recordImport cwd f s i)) = map fst (nodes s)"
  by (simp add: recordImport_def Let_def split: option.splits)

lemma recordImport_twice:
  assumes d: "distinct (map fst (nodes st))" and f: "nodes_has (nodes st) f"
  shows "recordImport cwd f (recordImport cwd f st i) i = recordImport cwd f st i"
proof -
  from recordImport_cases [OF d f, of cwd i]
  show ?thesis
  proof
    assume "recordImport cwd f st i = st"
    then show ?thesis by simp
  next
    assume "\<exists>r. resolveImport cwd st f i = Some r \<and> r \<noteq> [] \<and> nodes_has (nodes st) r \<and>
              recordImport cwd f st i = st\<lparr>nodes := addEdge (nodes st) f r\<rparr>"
    then obtain r where res: "resolveImport cwd st f i = Some r" and ne: "r \<noteq> []"
      and r: "nodes_has (nodes st) r"
      and eq: "recordImport cwd f st i = st\<lparr>nodes := addEdge (nodes st) f r\<rparr>"
      by blast
    let ?st = "st\<lparr>nodes := addEdge (nodes st) f r\<rparr>"
    have res': "resolveImport cwd ?st f i = Some r"
      using res resolveImport_keys [of ?st st cwd f i] by simp
    from f obtain F where F: "map_of (nodes st) f = Some F" by (auto simp: nodes_has_def)
    from r obtain R where R: "map_of (nodes st) r = Some R" by (auto simp: nodes_has_def)
    have has: "nodes_has (nodes ?st) r" using r by (simp add: nodes_has_iff)
    obtain F' where F': "nodes_get (nodes ?st) f = Some F'" "r \<in> set (imports F')"
      using F by (simp add: nodes_get_def map_of_addEdge)
    obtain R' where R': "nodes_get (nodes ?st) r = Some R'" "f \<in> set (importedBy R')"
      using R by (simp add: nodes_get_def map_of_addEdge)
    have "recordImport cwd f ?st i = ?st"
      using res' ne has F' R' by (simp add: recordImport_def)
    with eq show ?thesis by simp
  qed
qed

text \<open>
  C5. Recording an edge is idempotent. After a build, the imports of every node and its
  importedBy are free of duplicates, whatever the raw reference lists repeat; and
  recording the same reference of the same file a second time changes nothing.
\<close>

theorem edge_recording_idempotent:
  "(build cwd tree readParsed rootDirArg = (Inr r, st) \<and> nodes_get (nodes st) k = Some n
      \<longrightarrow> distinct (imports n) \<and> distinct (importedBy n)) \<and>
   (distinct (map fst (nodes s)) \<and> nodes_has (nodes s) f
      \<longrightarrow> recordImport cwd f (recordImport cwd f s i) i = recordImport cwd f s i)"
proof (intro conjI impI)
  assume a: "build cwd tree readParsed rootDirArg = (Inr r, st) \<and> nodes_get (nodes st) k = Some n"
  with build_success [of cwd tree readParsed rootDirArg r st]
  have "graph_inv (nodes st)" "map_of (nodes st) k = Some n"
    by (auto simp: nodes_get_def)
  then show "distinct (imports n)" "distinct (importedBy n)"
    unfolding graph_inv_def by blast+
next
  assume "distinct (map fst (nodes s)) \<and> nodes_has (nodes s) f"
  then show "recordImport cwd f (recordImport cwd f s i) i = recordImport cwd f s i"
    by (simp add: recordImport_twice)
qed

lemma twice_build:
  "build ''/'' app_tree twice_read ''/app'' = (Inr \<lparr>nodeCount = 3, totalFiles = 3\<rparr>, app_graph)"
  by code_simp

theorem edge_recording_idempotent_witness:
  "build ''/'' app_tree twice_read ''/app'' = (Inr \<lparr>nodeCount = 3, totalFiles = 3\<rparr>, app_graph) \<and>
   nodes_get (nodes app_graph) ''/app/index.ts''
     = Some \<lparr>path = ''/app/index.ts'', imports = [''/app/utils.ts''], importedBy = [], symbols = []\<rparr> \<and>
   distinct [''/app/utils.ts''] \<and>
   distinct (map fst (nodes app_graph)) \<and> nodes_has (nodes app_graph) ''/app/index.ts'' \<and>
   recordImport ''/'' ''/app/index.ts'' (recordImport ''/'' ''/app/index.ts'' app_graph ''./oldUtils'') ''./oldUtils''
     = recordImport ''/'' ''/app/index.ts'' app_graph ''./oldUtils''"
proof -
  have a: "nodes_get (nodes app_graph) ''/app/index.ts''
     = Some \<lparr>path = ''/app/index.ts'', imports = [''/app/utils.ts''], importedBy = [], symbols = []\<rparr>"
    by (simp add: app_graph_def nodes_get_def)
  have b: "distinct (map fst (nodes app_graph))" "nodes_has (nodes app_graph) ''/app/index.ts''"
    by (simp_all add: app_graph_def nodes_has_def)
  from edge_recording_idempotent [of "''/''" app_tree twice_read "''/app''" _ app_graph
      "''/app/index.ts''" _ app_graph "''/app/index.ts''" "''./oldUtils''"] twice_build a b
  show ?thesis by simp
qed

subsection \<open>Nodes and discovered files\<close>

text \<open>
  C6. After a build the node keys are exactly the discovered files: the number of nodes
  is the number of distinct files, every node's path is its key, both ends of every edge
  are discovered files, one round of the import loop never changes the key set, and a
  reference that resolves to nothing leaves the graph as it is.
\<close>

theorem nodes_are_discovered_files:
  assumes "build cwd tree readParsed rootDirArg = (Inr r, st)"
  shows "\<exists>files. getAllFiles cwd (path_resolve cwd [rootDirArg]) tree = Inr files \<and>
           set (map fst (nodes st)) = set files \<and> distinct (map fst (nodes st)) \<and>
           nodeCount r = card (set files) \<and> totalFiles r = length files \<and>
           (\<forall>k n. nodes_get (nodes st) k = Some n \<longrightarrow>
              path n = k \<and> set (imports n) \<subseteq> set files \<and> set (importedBy n) \<subseteq> set files) \<and>
           (\<forall>s f i. map fst (nodes (recordImport cwd f s i)) = map fst (nodes s)) \<and>
           (\<forall>s f i. resolveImport cwd s f i = None \<longrightarrow> recordImport cwd f s i = s)"
proof -
  from build_success [OF assms] obtain files
    where files: "getAllFiles cwd (path_resolve cwd [rootDirArg]) tree = Inr files"
      and inv: "graph_inv (nodes st)" and keys: "set (map fst (nodes st)) = set files"
      and r: "r = \<lparr>nodeCount = length (nodes st), totalFiles = length files\<rparr>"
    by blast
  from inv have d: "distinct (map fst (nodes st))" by (simp add: graph_inv_def)
  have "length (nodes st) = card (set (map fst (nodes st)))"
    using distinct_card [OF d] by simp
  with keys r have cnt: "nodeCount r = card (set files)" "totalFiles r = length files" by simp_all
  have closed: "path n = k \<and> set (imports n) \<subseteq> set files \<and> set (importedBy n) \<subseteq> set files"
    if "nodes_get (nodes st) k = Some n" for k n
  proof -
    from that have n: "map_of (nodes st) k = Some n" by (simp add: nodes_get_def)
    with inv have "path n = k"
      and i: "\<forall>p \<in> set (imports n). \<exists>t. map_of (nodes st) p = Some t \<and> k \<in> set (importedBy t)"
      and b: "\<forall>p \<in> set (importedBy n). \<exists>t. map_of (nodes st) p = Some t \<and> k \<in> set (imports t)"
      unfolding graph_inv_def by blast+
    moreover have "p \<in> set files" if "map_of (nodes st) p = Some t" for p t
      using that keys by (metis domI dom_map_of_conv_image_fst set_map)
    ultimately show ?thesis by blast
  qed
  have "recordImport cwd f s i = s" if "resolveImport cwd s f i = None" for s f i
    using that by (simp add: recordImport_def)
  with files keys d cnt closed show ?thesis
    by (simp add: recordImport_keys)
qed

lemma ghost_build:
  "build ''/'' app_tree ghost_read ''/app'' = (Inr \<lparr>nodeCount = 3, totalFiles = 3\<rparr>, app_graph)"
  by code_simp

theorem nodes_are_discovered_files_witness:
  "build ''/'' app_tree ghost_read ''/app'' = (Inr \<lparr>nodeCount = 3, totalFiles = 3\<rparr>, app_graph) \<and>
   getAllFiles ''/'' (path_resolve ''/'' [''/app'']) app_tree
     = Inr [''/app/index.ts'', ''/app/utils.ts'', ''/app/oldUtils.ts''] \<and>
   set (map fst (nodes app_graph)) = set [''/app/index.ts'', ''/app/utils.ts'', ''/app/oldUtils.ts''] \<and>
   resolveImport ''/'' app_graph ''/app/index.ts'' ''./ghost'' = None \<and>
   recordImport ''/'' ''/app/index.ts'' app_graph ''./ghost'' = app_graph"
proof -
  have g: "getAllFiles ''/'' (path_resolve ''/'' [''/app'']) app_tree
     = Inr [''/app/index.ts'', ''/app/utils.ts'', ''/app/oldUtils.ts'']"
    by code_simp
  have n: "resolveImport ''/'' app_graph ''/app/index.ts'' ''./ghost'' = None"
    by code_simp
  from nodes_are_discovered_files [OF ghost_build] g n ghost_build
  show ?thesis by auto
qed

subsection \<open>Precedence of resolution\<close>

lemma resolvePath_candidates:
  "resolvePath cwd m dir ref =
     find (\<lambda>c. c \<in> set (map fst m)) (spec_candidates (path_resolve cwd [dir, ref]))"
  by (simp add: resolvePath_def spec_candidates_def extensions_def replaceJsExt_def
      nodes_has_iff Let_def)

text \<open>
  C3. Resolution follows a fixed precedence. The base path is the reference resolved
  against the directory of the importing file when the reference begins with a dot, and
  against the project root otherwise. The result is the first discovered file among: the
  base path itself; the base path followed by .ts, .js, .tsx, .jsx, .json, /index.ts,
  /index.js, in this order; and, when the base path ends in .js, the base path with .js
  replaced by .ts, then .tsx, then .jsx. When none is a discovered file the reference is
  unresolved.
\<close>

theorem resolution_precedence:
  "resolveImport cwd st filePath ref =
     find (\<lambda>c. c \<in> set (map fst (nodes st)))
       (spec_candidates
          (if take 1 ref = ''.'' then path_resolve cwd [path_dirname filePath, ref]
           else path_resolve cwd [rootDir st, ref]))"
  by (simp add: resolveImport_def resolvePath_candidates startsWith_def)

theorem resolution_precedence_witness:
  "resolveImport ''/'' tie_graph ''/app/src/main.ts'' ''./utils.js'' = Some ''/app/src/utils.js'' \<and>
   resolveImport ''/'' tie_graph ''/app/src/main.ts'' ''./utils'' = Some ''/app/src/utils.ts'' \<and>
   resolveImport ''/'' tie_graph ''/app/src/main.ts'' ''./lib.js'' = Some ''/app/src/lib.js.ts'' \<and>
   resolveImport ''/'' tie_graph ''/app/src/main.ts'' ''./only.js'' = Some ''/app/src/only.tsx'' \<and>
   resolveImport ''/'' tie_graph ''/app/src/main.ts'' ''utils'' = Some ''/app/utils.json'' \<and>
   resolveImport ''/'' tie_graph ''/app/src/main.ts'' ''./none.js'' = None"
proof -
  let ?known = "\<lambda>c. c \<in> set (map fst (nodes tie_graph))"
  let ?base = "\<lambda>ref. if take 1 ref = ''.'' then path_resolve ''/'' [path_dirname ''/app/src/main.ts'', ref]
           else path_resolve ''/'' [rootDir tie_graph, ref]"
  have "find ?known (spec_candidates (?base ''./utils.js'')) = Some ''/app/src/utils.js''"
    "find ?known (spec_candidates (?base ''./utils'')) = Some ''/app/src/utils.ts''"
    "find ?known (spec_candidates (?base ''./lib.js'')) = Some ''/app/src/lib.js.ts''"
    "find ?known (spec_candidates (?base ''./only.js'')) = Some ''/app/src/only.tsx''"
    "find ?known (spec_candidates (?base ''utils'')) = Some ''/app/utils.json''"
    "find ?known (spec_candidates (?base ''./none.js'')) = None"
    by code_simp+
  then show ?thesis
    by (simp only: resolution_precedence [of "''/''" tie_graph "''/app/src/main.ts''"])
qed

subsection \<open>Relationship queries\<close>

lemma endsWith_iff: "endsWith s p \<longleftrightarrow> (\<exists>pre. s = pre @ p)"
proof
  assume "endsWith s p"
  then have "s = take (length s - length p) s @ p"
    by (metis append_take_drop_id endsWith_def)
  then show "\<exists>pre. s = pre @ p" ..
next
  assume "\<exists>pre. s = pre @ p"
  then show "endsWith s p" by (auto simp: endsWith_def)
qed

lemma find_first:
  assumes "i < length xs" and "P (xs ! i)" and "\<forall>j<i. \<not> P (xs ! j)"
  shows "find P xs = Some (xs ! i)"
  using assms
proof (induction xs arbitrary: i)
  case Nil
  then show ?case by simp
next
  case (Cons x xs)
  show ?case
  proof (cases i)
    case 0
    with Cons.prems show ?thesis by simp
  next
    case (Suc k)
    with Cons.prems have "\<not> P x" by auto
    moreover from Suc Cons.prems have "find P xs = Some (xs ! k)"
      by (intro Cons.IH) auto
    ultimately show ?thesis using Suc by simp
  qed
qed

text \<open>
  C7. \<open>getRelationships\<close> resolves the query path against the root. When the resolved
  path is a node key it returns that node. Otherwise it returns the first node, in the
  iteration order of the map, whose key ends with the query path as given; when there is
  none it returns the not-found value and does not throw. The imports and importedBy of
  the returned record are root-relative paths.
\<close>

theorem getRelationships_lookup:
  "(nodes_get (nodes st) (path_resolve cwd [rootDir st, queryPath]) = Some n
      \<longrightarrow> getRelationships cwd st queryPath = Some (rootRelative cwd st n)) \<and>
   (nodes_get (nodes st) (path_resolve cwd [rootDir st, queryPath]) = None \<and>
    i < length (nodes st) \<and> endsWith (fst (nodes st ! i)) queryPath \<and>
    (\<forall>j<i. \<not> endsWith (fst (nodes st ! j)) queryPath)
      \<longrightarrow> getRelationships cwd st queryPath = Some (rootRelative cwd st (snd (nodes st ! i)))) \<and>
   (nodes_get (nodes st) (path_resolve cwd [rootDir st, queryPath]) = None \<and>
    (\<forall>key \<in> set (map fst (nodes st)). \<not> endsWith key queryPath)
      \<longrightarrow> getRelationships cwd st queryPath = None)"
proof (intro conjI impI)
  assume "nodes_get (nodes st) (path_resolve cwd [rootDir st, queryPath]) = Some n"
  then show "getRelationships cwd st queryPath = Some (rootRelative cwd st n)"
    by (simp add: getRelationships_def)
next
  assume a: "nodes_get (nodes st) (path_resolve cwd [rootDir st, queryPath]) = None \<and>
    i < length (nodes st) \<and> endsWith (fst (nodes st ! i)) queryPath \<and>
    (\<forall>j<i. \<not> endsWith (fst (nodes st ! j)) queryPath)"
  then have "find (\<lambda>(key, v). endsWith key queryPath) (nodes st) = Some (nodes st ! i)"
    by (intro find_first) (auto simp: case_prod_beta)
  with a show "getRelationships cwd st queryPath = Some (rootRelative cwd st (snd (nodes st ! i)))"
    by (cases "nodes st ! i") (simp add: getRelationships_def)
next
  assume a: "nodes_get (nodes st) (path_resolve cwd [rootDir st, queryPath]) = None \<and>
    (\<forall>key \<in> set (map fst (nodes st)). \<not> endsWith key queryPath)"
  then have "find (\<lambda>(key, v). endsWith key queryPath) (nodes st) = None"
    by (auto simp: find_None_iff)
  with a show "getRelationships cwd st queryPath = None"
    by (simp add: getRelationships_def)
qed

theorem getRelationships_lookup_witness:
  "nodes_get (nodes app_graph) (path_resolve ''/'' [rootDir app_graph, ''utils.ts''])
     = Some \<lparr>path = ''/app/utils.ts'', imports = [], importedBy = [''/app/index.ts''], symbols = []\<rparr> \<and>
   getRelationships ''/'' app_graph ''utils.ts''
     = Some \<lparr>path = ''/app/utils.ts'', imports = [], importedBy = [''index.ts''], symbols = []\<rparr> \<and>
   nodes_get (nodes app_graph) (path_resolve ''/'' [rootDir app_graph, ''Utils.ts'']) = None \<and>
   (2::nat) < length (nodes app_graph) \<and> endsWith (fst (nodes app_graph ! 2)) ''Utils.ts'' \<and>
   \<not> endsWith (fst (nodes app_graph ! 0)) ''Utils.ts'' \<and>
   \<not> endsWith (fst (nodes app_graph ! 1)) ''Utils.ts'' \<and>
   getRelationships ''/'' app_graph ''Utils.ts''
     = Some \<lparr>path = ''/app/oldUtils.ts'', imports = [], importedBy = [], symbols = []\<rparr> \<and>
   nodes_get (nodes app_graph) (path_resolve ''/'' [rootDir app_graph, ''ghost.ts'']) = None \<and>
   \<not> endsWith ''/app/index.ts'' ''ghost.ts'' \<and> \<not> endsWith ''/app/utils.ts'' ''ghost.ts'' \<and>
   \<not> endsWith ''/app/oldUtils.ts'' ''ghost.ts'' \<and>
   getRelationships ''/'' app_graph ''ghost.ts'' = None"
proof -
  have rel: "path_relative ''/'' ''/app'' ''/app/index.ts'' = ''index.ts''"
    by code_simp
  have 1: "nodes_get (nodes app_graph) (path_resolve ''/'' [rootDir app_graph, ''utils.ts''])
     = Some \<lparr>path = ''/app/utils.ts'', imports = [], importedBy = [''/app/index.ts''], symbols = []\<rparr>"
    by code_simp
  have 2: "nodes_get (nodes app_graph) (path_resolve ''/'' [rootDir app_graph, ''Utils.ts'']) = None"
    by code_simp
  have 3: "(2::nat) < length (nodes app_graph)" "endsWith (fst (nodes app_graph ! 2)) ''Utils.ts''"
    "\<not> endsWith (fst (nodes app_graph ! 0)) ''Utils.ts''"
    "\<not> endsWith (fst (nodes app_graph ! 1)) ''Utils.ts''"
    by (simp_all add: app_graph_def endsWith_def)
  then have 4: "\<forall>j<2. \<not> endsWith (fst (nodes app_graph ! j)) ''Utils.ts''"
    by (simp add: less_Suc_eq numeral_2_eq_2)
  have 5: "nodes_get (nodes app_graph) (path_resolve ''/'' [rootDir app_graph, ''ghost.ts'']) = None"
    by code_simp
  have 6: "\<not> endsWith ''/app/index.ts'' ''ghost.ts''" "\<not> endsWith ''/app/utils.ts'' ''ghost.ts''"
    "\<not> endsWith ''/app/oldUtils.ts'' ''ghost.ts''"
    by (simp_all add: endsWith_def)
  then have 7: "\<forall>key \<in> set (map fst (nodes app_graph)). \<not> endsWith key ''ghost.ts''"
    by (simp add: app_graph_def)
  have r0: "rootDir app_graph = ''/app''" by (simp add: app_graph_def)
  have n2: "snd (nodes app_graph ! 2) = \<lparr>path = ''/app/oldUtils.ts'', imports = [], importedBy = [], symbols = []\<rparr>"
    by (simp add: app_graph_def)
  from getRelationships_lookup [of app_graph "''/''" "''utils.ts''" _ 0] 1
  have a: "getRelationships ''/'' app_graph ''utils.ts''
     = Some \<lparr>path = ''/app/utils.ts'', imports = [], importedBy = [''index.ts''], symbols = []\<rparr>"
    by (simp add: r0 rel)
  from getRelationships_lookup [of app_graph "''/''" "''Utils.ts''" undefined 2] 2 3 4
  have b: "getRelationships ''/'' app_graph ''Utils.ts''
     = Some \<lparr>path = ''/app/oldUtils.ts'', imports = [], importedBy = [], symbols = []\<rparr>"
    by (simp add: n2)
  from getRelationships_lookup [of app_graph "''/''" "''ghost.ts''" undefined 0] 5 7
  have c: "getRelationships ''/'' app_graph ''ghost.ts'' = None"
    by simp
  from 1 2 3 5 6 a b c show ?thesis by simp
qed

subsection \<open>The summary\<close>

lemma insertBy_insort:
  "insertBy byImportedBy x ys = insort_key (\<lambda>n. - int (length (importedBy n))) x ys"
  by (induction ys) (auto simp: byImportedBy_def)

lemma sortBy_sort_key:
  "sortBy byImportedBy xs = sort_key (\<lambda>n. - int (length (importedBy n))) xs"
  by (induction xs) (simp_all add: sortBy_def insertBy_insort)

text \<open>
  C8. \<open>getSummary\<close> returns the root, the number of nodes as \<open>fileCount\<close>, and at most
  five entries in descending order of the number of importing files, each with the
  root-relative path of a node and that number. The list has five entries when the graph
  has five nodes or more, and one entry for every node otherwise. The nodes split into
  the listed ones and the omitted ones, and no omitted node has more importing files than
  a listed one.
\<close>

theorem getSummary_top:
  "root (getSummary cwd st) = rootDir st \<and>
   fileCount (getSummary cwd st) = length (nodes st) \<and>
   length (mostReferencedFiles (getSummary cwd st)) \<le> 5 \<and>
   length (mostReferencedFiles (getSummary cwd st)) = min 5 (length (nodes st)) \<and>
   sorted_wrt (\<lambda>a b. referencedBy b \<le> referencedBy a) (mostReferencedFiles (getSummary cwd st)) \<and>
   (\<exists>listed omitted.
      mset (listed @ omitted) = mset (map snd (nodes st)) \<and>
      mostReferencedFiles (getSummary cwd st)
        = map (\<lambda>n. \<lparr>file = path_relative cwd (rootDir st) (path n),
                     referencedBy = length (importedBy n)\<rparr>) listed \<and>
      (\<forall>l \<in> set listed. \<forall>om \<in> set omitted.
         length (importedBy om) \<le> length (importedBy l)))"
proof -
  let ?f = "\<lambda>n. - int (length (importedBy n))"
  let ?s = "sort_key ?f (map snd (nodes st))"
  let ?e = "\<lambda>n. \<lparr>file = path_relative cwd (rootDir st) (path n), referencedBy = length (importedBy n)\<rparr>"
  have most: "mostReferencedFiles (getSummary cwd st) = map ?e (take 5 ?s)"
    by (simp add: getSummary_def sortBy_sort_key)
  have "sorted (map ?f ?s)" by (rule sorted_sort_key)
  then have sw: "sorted_wrt (\<lambda>a b. length (importedBy b) \<le> length (importedBy a)) ?s"
    by (simp add: sorted_wrt_map)
  have "?s = take 5 ?s @ drop 5 ?s" by simp
  with sw have sw2: "sorted_wrt (\<lambda>a b. length (importedBy b) \<le> length (importedBy a))
      (take 5 ?s @ drop 5 ?s)" by simp
  then have st: "sorted_wrt (\<lambda>a b. length (importedBy b) \<le> length (importedBy a)) (take 5 ?s)"
    and cross: "\<forall>l \<in> set (take 5 ?s). \<forall>om \<in> set (drop 5 ?s).
         length (importedBy om) \<le> length (importedBy l)"
    unfolding sorted_wrt_append by blast+
  have sorted: "sorted_wrt (\<lambda>a b. referencedBy b \<le> referencedBy a)
      (mostReferencedFiles (getSummary cwd st))"
    using st by (simp add: most sorted_wrt_map)
  have ms: "mset (take 5 ?s @ drop 5 ?s) = mset (map snd (nodes st))" by simp
  have len: "length (mostReferencedFiles (getSummary cwd st)) \<le> 5" by (simp add: most)
  have full: "length (mostReferencedFiles (getSummary cwd st)) = min 5 (length (nodes st))"
    by (simp add: most min.commute)
  have "root (getSummary cwd st) = rootDir st" "fileCount (getSummary cwd st) = length (nodes st)"
    by (simp_all add: getSummary_def)
  with len full sorted ms most cross show ?thesis by blast
qed

lemma hub_summary:
  "getSummary ''/'' hub_graph =
     \<lparr>root = ''/p'', fileCount = 7,
      mostReferencedFiles =
        [\<lparr>file = ''d.ts'', referencedBy = 3\<rparr>, \<lparr>file = ''b.ts'', referencedBy = 2\<rparr>,
         \<lparr>file = ''g.ts'', referencedBy = 2\<rparr>, \<lparr>file = ''c.ts'', referencedBy = 1\<rparr>,
         \<lparr>file = ''f.ts'', referencedBy = 1\<rparr>]\<rparr>"
  by code_simp

theorem getSummary_top_witness:
  "mostReferencedFiles (getSummary ''/'' hub_graph) =
        [\<lparr>file = ''d.ts'', referencedBy = 3\<rparr>, \<lparr>file = ''b.ts'', referencedBy = 2\<rparr>,
         \<lparr>file = ''g.ts'', referencedBy = 2\<rparr>, \<lparr>file = ''c.ts'', referencedBy = 1\<rparr>,
         \<lparr>file = ''f.ts'', referencedBy = 1\<rparr>] \<and>
   fileCount (getSummary ''/'' hub_graph) = 7 \<and>
   length (mostReferencedFiles (getSummary ''/'' hub_graph)) = min 5 (length (nodes hub_graph)) \<and>
   (\<exists>listed omitted.
      length listed = 5 \<and> length omitted = 2 \<and>
      mset (listed @ omitted) = mset (map snd (nodes hub_graph)) \<and>
      mostReferencedFiles (getSummary ''/'' hub_graph)
        = map (\<lambda>n. \<lparr>file = path_relative ''/'' (rootDir hub_graph) (path n),
                     referencedBy = length (importedBy n)\<rparr>) listed)"
proof -
  from getSummary_top [of "''/''" hub_graph] obtain listed omitted
    where ms: "mset (listed @ omitted) = mset (map snd (nodes hub_graph))"
      and most: "mostReferencedFiles (getSummary ''/'' hub_graph)
        = map (\<lambda>n. \<lparr>file = path_relative ''/'' (rootDir hub_graph) (path n),
                     referencedBy = length (importedBy n)\<rparr>) listed"
    by blast
  from most have "length (mostReferencedFiles (getSummary ''/'' hub_graph)) = length listed"
    by simp
  then have l: "length listed = 5" by (simp add: hub_summary)
  from ms have "size (mset (listed @ omitted)) = size (mset (map snd (nodes hub_graph)))"
    by simp
  then have "length listed + length omitted = 7" by (simp add: hub_graph_def)
  with l have o: "length omitted = 2" by simp
  from getSummary_top [of "''/''" hub_graph]
  have "length (mostReferencedFiles (getSummary ''/'' hub_graph)) = min 5 (length (nodes hub_graph))"
    by blast
  with l o ms most show ?thesis by (auto simp: hub_summary)
qed

subsection \<open>The empty query path\<close>

lemma segments_nonempty [simp]: "segments s \<noteq> []"
  by (induction s) (auto split: list.splits)

lemma segments_append_slash: "segments (a @ CHR ''/'' # b) = segments a @ segments b"
  by (induction a) (auto split: list.splits)

lemma segments_no_slash: "CHR ''/'' \<notin> set s \<Longrightarrow> segments s = [s]"
  by (induction s) auto

lemma segments_slash_free: "s \<in> set (segments p) \<Longrightarrow> CHR ''/'' \<notin> set s"
  by (induction p arbitrary: s) (auto split: list.splits if_splits)

lemma joinSegs_snoc:
  "joinSegs (ss @ [n]) = (if ss = [] then n else joinSegs ss @ ''/'' @ n)"
  by (induction ss rule: joinSegs.induct) auto

lemma segments_joinSegs:
  "ss \<noteq> [] \<Longrightarrow> \<forall>s \<in> set ss. CHR ''/'' \<notin> set s \<Longrightarrow> segments (joinSegs ss) = ss"
proof (induction ss rule: joinSegs.induct)
  case (3 s t ss)
  then show ?case
    using segments_append_slash [of s "joinSegs (t # ss)"] by (simp add: segments_no_slash)
qed (simp_all add: segments_no_slash)

lemma normStep_valid: "validName s \<Longrightarrow> normStep a res s = res @ [s]"
  by (simp add: normStep_def validName_def)

lemma normalize_valid:
  "\<forall>s \<in> set ss. validName s \<Longrightarrow> foldl (normStep a) res ss = res @ ss"
  by (induction ss arbitrary: res) (simp_all add: normStep_valid)

lemma normStep_empty [simp]: "normStep a res [] = res"
  by (simp add: normStep_def)

lemma normStep_keeps_valid:
  assumes "\<forall>s \<in> set res. validName s" and "CHR ''/'' \<notin> set seg"
  shows "\<forall>s \<in> set (normStep False res seg). validName s"
  using assms by (auto simp: normStep_def validName_def dest: in_set_butlastD)

lemma normalize_keeps_valid:
  assumes "\<forall>s \<in> set res. validName s" and "\<forall>s \<in> set ss. CHR ''/'' \<notin> set s"
  shows "\<forall>s \<in> set (foldl (normStep False) res ss). validName s"
  using assms
proof (induction ss arbitrary: res)
  case Nil
  then show ?case by simp
next
  case (Cons x ss)
  from Cons.prems have "\<forall>s \<in> set (normStep False res x). validName s"
    by (intro normStep_keeps_valid) auto
  with Cons show ?case by simp
qed

lemma segments_normalPath:
  assumes "normalPath p segs"
  shows "foldl (normStep a) [] (segments p @ rest) = foldl (normStep a) segs rest"
proof (cases "segs = []")
  case True
  with assms show ?thesis by (simp add: normalPath_def)
next
  case False
  from assms have p: "p = CHR ''/'' # joinSegs segs" and v: "\<forall>s \<in> set segs. validName s"
    by (simp_all add: normalPath_def)
  from v have "\<forall>s \<in> set segs. CHR ''/'' \<notin> set s" by (simp add: validName_def)
  with False have "segments (joinSegs segs) = segs" by (rule segments_joinSegs)
  then have "segments p = [] # segs" by (simp add: p)
  with v show ?thesis by (simp add: normalize_valid)
qed

lemma resolve_in_dir:
  assumes dir: "normalPath dir segs" and x: "x = [] \<or> hd x \<noteq> CHR ''/''"
  shows "path_resolve cwd [dir, x]
           = ''/'' @ joinSegs (foldl (normStep False) segs (segments x))"
proof -
  from dir have d: "dir \<noteq> []" "hd dir = CHR ''/''" by (simp_all add: normalPath_def)
  show ?thesis
  proof (cases "x = []")
    case True
    with d have "resolveLoop (rev [dir, x] @ [cwd]) [] = (dir @ ''/'', True)" by simp
    moreover have "segments (dir @ ''/'') = segments dir @ [[]]"
      using segments_append_slash [of dir "[]"] by simp
    ultimately show ?thesis
      using segments_normalPath [OF dir, of False "[[]]"] True
      by (simp add: path_resolve_def normalizeString_def)
  next
    case False
    with x d have "resolveLoop (rev [dir, x] @ [cwd]) [] = (dir @ ''/'' @ x @ ''/'', True)" by simp
    moreover have "segments (dir @ ''/'' @ x @ ''/'') = segments dir @ segments x @ [[]]"
      using segments_append_slash [of dir "x @ ''/''"] segments_append_slash [of x "[]"] by simp
    ultimately show ?thesis
      using segments_normalPath [OF dir, of False "segments x @ [[]]"]
      by (simp add: path_resolve_def normalizeString_def)
  qed
qed

lemma resolve_empty: "normalPath dir segs \<Longrightarrow> path_resolve cwd [dir, []] = dir"
  using resolve_in_dir [of dir segs "[]" cwd] by (simp add: normalPath_def)

lemma resolve_name:
  assumes "normalPath dir segs" and "validName name"
  shows "normalPath (path_resolve cwd [dir, name]) (segs @ [name])"
proof -
  from assms(2) have "name = [] \<or> hd name \<noteq> CHR ''/''"
    by (cases name) (auto simp: validName_def)
  from resolve_in_dir [OF assms(1) this, of cwd] assms
  show ?thesis
    by (simp add: segments_no_slash validName_def normStep_def normalPath_def)
qed

lemma normalPath_longer:
  assumes "normalPath dir segs" and "normalPath p (segs @ [name])"
  shows "length dir < length p"
  using assms by (auto simp: normalPath_def joinSegs_snoc validName_def)

lemma resolveLoop_absolute:
  "cwd \<noteq> [] \<Longrightarrow> hd cwd = CHR ''/'' \<Longrightarrow> snd (resolveLoop (ps @ [cwd]) acc)"
  by (induction ps arbitrary: acc) auto

lemma path_resolve_normal:
  assumes "startsWith cwd ''/''"
  shows "\<exists>segs. normalPath (path_resolve cwd args) segs"
proof -
  from assms have c: "cwd \<noteq> []" "hd cwd = CHR ''/''"
    by (cases cwd; simp add: startsWith_def)+
  obtain rp ab where rl: "resolveLoop (rev args @ [cwd]) [] = (rp, ab)"
    by (cases "resolveLoop (rev args @ [cwd]) []")
  with resolveLoop_absolute [OF c, of "rev args" "[]"] have ab by simp
  have "\<forall>s \<in> set (foldl (normStep False) [] (segments rp)). validName s"
    by (intro normalize_keeps_valid) (auto dest: segments_slash_free)
  with rl \<open>ab\<close> have "normalPath (path_resolve cwd args) (normalizeString rp False)"
    by (simp add: path_resolve_def normalPath_def normalizeString_def)
  then show ?thesis ..
qed

lemma discovered_below:
  "normalPath dir segs \<Longrightarrow> validTree t \<Longrightarrow> getAllFiles cwd dir t = Inr files
     \<Longrightarrow> f \<in> set files \<Longrightarrow> length dir < length f"
  "normalPath dir segs \<Longrightarrow> validEntries es \<Longrightarrow> walkEntries cwd dir es = Inr files
     \<Longrightarrow> f \<in> set files \<Longrightarrow> length dir < length f"
proof (induction cwd dir t and cwd dir es arbitrary: segs files and segs files
    rule: getAllFiles_walkEntries.induct)
  case (1 cwd dir)
  then show ?case by simp
next
  case (2 cwd dir entries)
  then show ?case by simp
next
  case (3 cwd dir)
  then show ?case by simp
next
  case (4 cwd dir name entries)
  from "4.prems"(3) obtain rest where rest: "walkEntries cwd dir entries = Inr rest"
    and files: "files = (if sourceExt name then [path_resolve cwd [dir, name]] else []) @ rest"
    by (auto split: sum.splits)
  from "4.prems"(2) have v: "validName name" "validEntries entries" by simp_all
  show ?case
  proof (cases "f \<in> set rest")
    case True
    from "4.IH" [OF "4.prems"(1) v(2) rest True] show ?thesis .
  next
    case False
    with files "4.prems"(4) have "f = path_resolve cwd [dir, name]"
      by (auto split: if_splits)
    with resolve_name [OF "4.prems"(1) v(1), of cwd] normalPath_longer [OF "4.prems"(1)]
    show ?thesis by blast
  qed
next
  case (5 cwd dir name sub entries)
  from "5.prems"(2) have v: "validName name" "validTree sub" "validEntries entries" by simp_all
  show ?case
  proof (cases "excludedDir name")
    case True
    with "5.prems"(3) have "walkEntries cwd dir entries = Inr files" by simp
    from "5.IH"(1) [OF True "5.prems"(1) v(3) this "5.prems"(4)] show ?thesis .
  next
    case False
    with "5.prems"(3) obtain subFiles rest
      where sub: "getAllFiles cwd (path_resolve cwd [dir, name]) sub = Inr subFiles"
        and rest: "walkEntries cwd dir entries = Inr rest"
        and files: "files = subFiles @ rest"
      by (auto split: sum.splits)
    note np = resolve_name [OF "5.prems"(1) v(1), of cwd]
    show ?thesis
    proof (cases "f \<in> set subFiles")
      case True
      from "5.IH"(2) [OF False np v(2) sub True]
      have "length (path_resolve cwd [dir, name]) < length f" .
      with normalPath_longer [OF "5.prems"(1) np] show ?thesis by simp
    next
      case False
      with files "5.prems"(4) have "f \<in> set rest" by simp
      from "5.IH"(3) [OF \<open>\<not> excludedDir name\<close> sub "5.prems"(1) v(3) rest this]
      show ?thesis .
    qed
  qed
qed

lemma nodes_set_hd: "m \<noteq> [] \<Longrightarrow> nodes_set m k v \<noteq> [] \<and> fst (hd (nodes_set m k v)) = fst (hd m)"
  by (cases m) (auto split: if_splits)

lemma initNodes_hd: "m \<noteq> [] \<Longrightarrow> initNodes m files \<noteq> [] \<and> fst (hd (initNodes m files)) = fst (hd m)"
proof (induction files arbitrary: m)
  case Nil
  then show ?case by (simp add: initNodes_def)
next
  case (Cons f files)
  from nodes_set_hd [OF Cons.prems, of f "initNode f"] Cons.IH [of "nodes_set m f (initNode f)"]
  show ?case by (simp add: initNodes_def)
qed

lemma initNodes_first: "files \<noteq> [] \<Longrightarrow> fst (hd (initNodes [] files)) = hd files"
proof (cases files)
  case Nil
  then show "files \<noteq> [] \<Longrightarrow> ?thesis" by simp
next
  case (Cons f fs)
  have "initNodes [] (f # fs) = initNodes [(f, initNode f)] fs"
    by (simp add: initNodes_def)
  with initNodes_hd [of "[(f, initNode f)]" fs] Cons
  show "files \<noteq> [] \<Longrightarrow> ?thesis" by simp
qed

lemma build_keys:
  assumes "build cwd tree readParsed rootDirArg = (Inr r, st)"
    and "getAllFiles cwd (path_resolve cwd [rootDirArg]) tree = Inr files"
  shows "map fst (nodes st) = map fst (initNodes [] files)"
proof -
  let ?st1 = "\<lparr>nodes = initNodes [] files, rootDir = path_resolve cwd [rootDirArg]\<rparr>"
  have "fresh_nodes []" by (simp add: fresh_nodes_def)
  from initNodes_props [OF this, of files] have "graph_inv (nodes ?st1)"
    by (simp add: fresh_graph_inv)
  from parseFiles_keeps [OF this, of cwd readParsed files] assms
  show ?thesis by (auto simp: build_def Let_def)
qed

text \<open>
  C10. The empty query path. After a build that left at least one node, in a directory
  tree whose entry names are names that \<open>readdir\<close> can return and with an absolute
  working directory, \<open>getRelationships\<close> of the empty string returns the first node in
  insertion order, which is the node of the first discovered file: the root directory is
  not a node key, and every key ends with the empty string.
\<close>

theorem empty_query_first_node:
  assumes "build cwd tree readParsed rootDirArg = (Inr r, st)"
    and "startsWith cwd ''/''" and "validTree tree"
    and "nodes st \<noteq> []"
  shows "getRelationships cwd st [] = Some (rootRelative cwd st (snd (hd (nodes st)))) \<and>
         (\<exists>files. getAllFiles cwd (path_resolve cwd [rootDirArg]) tree = Inr files \<and>
                  fst (hd (nodes st)) = hd files)"
proof -
  from build_success [OF assms(1)] obtain files
    where files: "getAllFiles cwd (path_resolve cwd [rootDirArg]) tree = Inr files"
      and keys: "set (map fst (nodes st)) = set files"
      and root: "rootDir st = path_resolve cwd [rootDirArg]"
    by blast
  from path_resolve_normal [OF assms(2), of "[rootDirArg]"] root
  obtain segs where np: "normalPath (rootDir st) segs" by auto
  then have same: "path_resolve cwd [rootDir st, []] = rootDir st" by (rule resolve_empty)
  have "rootDir st \<notin> set files"
    using discovered_below(1) [OF np assms(3)] files root by fastforce
  with keys have "nodes_get (nodes st) (path_resolve cwd [rootDir st, []]) = None"
    by (simp add: same nodes_get_def map_of_eq_None_iff)
  moreover obtain k v rest where n: "nodes st = (k, v) # rest"
    using assms(4) by (cases "nodes st") auto
  ultimately have rel: "getRelationships cwd st [] = Some (rootRelative cwd st (snd (hd (nodes st))))"
    by (simp add: getRelationships_def endsWith_def)
  from keys assms(4) have "files \<noteq> []" by auto
  with build_keys [OF assms(1) files] initNodes_first [of files] assms(4)
  have "fst (hd (nodes st)) = hd files"
    by (metis hd_map list.map_disc_iff)
  with rel files show ?thesis by blast
qed

theorem empty_query_first_node_witness:
  "build ''/'' app_tree app_read ''/app'' = (Inr \<lparr>nodeCount = 3, totalFiles = 3\<rparr>, app_graph) \<and>
   startsWith ''/'' ''/'' \<and> validTree app_tree \<and> nodes app_graph \<noteq> [] \<and>
   getRelationships ''/'' app_graph []
     = Some \<lparr>path = ''/app/index.ts'', imports = [''utils.ts''], importedBy = [], symbols = []\<rparr>"
proof -
  have a: "startsWith ''/'' ''/''" by (simp add: startsWith_def)
  have b: "validTree app_tree" by (simp add: app_tree_def validName_def)
  have c: "nodes app_graph \<noteq> []" by (simp add: app_graph_def)
  have rel: "path_relative ''/'' ''/app'' ''/app/utils.ts'' = ''utils.ts''"
    by code_simp
  have "snd (hd (nodes app_graph))
      = \<lparr>path = ''/app/index.ts'', imports = [''/app/utils.ts''], importedBy = [], symbols = []\<rparr>"
    "rootDir app_graph = ''/app''"
    by (simp_all add: app_graph_def)
  with empty_query_first_node [OF app_build a b c] rel app_build a b c
  show ?thesis by simp
qed

subsection \<open>Failures\<close>















lemma initNodes_fresh_node:
  assumes "map_of (initNodes [] files) k = Some n"
  shows "n = initNode k"
proof -
  have "fresh_nodes []" by (simp add: fresh_nodes_def)
  from initNodes_props [OF this, of files] have "fresh_nodes (initNodes [] files)" by simp
  with map_of_SomeD [OF assms] show ?thesis by (auto simp: fresh_nodes_def)
qed





subsection \<open>The filters of discovery\<close>

lemma walkEntries_append:
  "walkEntries cwd dir (xs @ ys) =
     (case walkEntries cwd dir xs of
        Inl e \<Rightarrow> Inl e
      | Inr a \<Rightarrow> (case walkEntries cwd dir ys of Inl e \<Rightarrow> Inl e | Inr b \<Rightarrow> Inr (a @ b)))"
proof (induction xs)
  case Nil
  show ?case by (simp split: sum.splits)
next
  case (Cons x xs)
  then show ?case by (cases x) (simp_all split: sum.splits)
qed

lemma sourceExt_iff:
  "sourceExt name \<longleftrightarrow>
     (\<exists>stem ext. ext \<in> {''.ts'', ''.js'', ''.tsx'', ''.jsx'', ''.json''} \<and> name = stem @ ext)"
  unfolding sourceExt_def endsWith_iff by blast

text \<open>What discovery skips and what it keeps: a directory named \<open>node_modules\<close>, \<open>.git\<close> or
  \<open>dist\<close> contributes nothing, as if it were absent; a directory of any other name is
  walked; a file is kept exactly when its name ends in one of the five extensions; the
  nodes of the graph are the discovered files.\<close>

lemma discovery_filters:
  "(excludedDir name \<longleftrightarrow> name \<in> {''node_modules'', ''.git'', ''dist''}) \<and>
   (sourceExt name \<longleftrightarrow>
      (\<exists>stem ext. ext \<in> {''.ts'', ''.js'', ''.tsx'', ''.jsx'', ''.json''} \<and> name = stem @ ext)) \<and>
   (excludedDir name
      \<longrightarrow> walkEntries cwd dir (pre @ DirEnt name sub # post) = walkEntries cwd dir (pre @ post)) \<and>
   (\<not> sourceExt name
      \<longrightarrow> walkEntries cwd dir (pre @ FileEnt name # post) = walkEntries cwd dir (pre @ post)) \<and>
   (\<not> excludedDir name \<and> walkEntries cwd dir (pre @ DirEnt name sub # post) = Inr files
      \<longrightarrow> (\<exists>subFiles. getAllFiles cwd (path_resolve cwd [dir, name]) sub = Inr subFiles \<and>
                      set subFiles \<subseteq> set files)) \<and>
   (sourceExt name \<and> walkEntries cwd dir (pre @ FileEnt name # post) = Inr files
      \<longrightarrow> path_resolve cwd [dir, name] \<in> set files) \<and>
   (build cwd tree readParsed rootDirArg = (Inr r, st) \<and>
    getAllFiles cwd (path_resolve cwd [rootDirArg]) tree = Inr files
      \<longrightarrow> set (map fst (nodes st)) = set files)"
proof (intro conjI impI)
  show "excludedDir name \<longleftrightarrow> name \<in> {''node_modules'', ''.git'', ''dist''}"
    by (auto simp: excludedDir_def)
  show "sourceExt name \<longleftrightarrow>
      (\<exists>stem ext. ext \<in> {''.ts'', ''.js'', ''.tsx'', ''.jsx'', ''.json''} \<and> name = stem @ ext)"
    by (rule sourceExt_iff)
next
  assume "excludedDir name"
  then show "walkEntries cwd dir (pre @ DirEnt name sub # post) = walkEntries cwd dir (pre @ post)"
    by (simp add: walkEntries_append split: sum.splits)
next
  assume "\<not> sourceExt name"
  then show "walkEntries cwd dir (pre @ FileEnt name # post) = walkEntries cwd dir (pre @ post)"
    by (simp add: walkEntries_append split: sum.splits)
next
  assume "\<not> excludedDir name \<and> walkEntries cwd dir (pre @ DirEnt name sub # post) = Inr files"
  then show "\<exists>subFiles. getAllFiles cwd (path_resolve cwd [dir, name]) sub = Inr subFiles \<and>
                      set subFiles \<subseteq> set files"
    by (auto simp: walkEntries_append split: sum.splits)
next
  assume "sourceExt name \<and> walkEntries cwd dir (pre @ FileEnt name # post) = Inr files"
  then show "path_resolve cwd [dir, name] \<in> set files"
    by (auto simp: walkEntries_append split: sum.splits)
next
  assume a: "build cwd tree readParsed rootDirArg = (Inr r, st) \<and>
    getAllFiles cwd (path_resolve cwd [rootDirArg]) tree = Inr files"
  with build_success [of cwd tree readParsed rootDirArg r st]
  show "set (map fst (nodes st)) = set files" by auto
qed

text \<open>
  C9. Discovery skips the directories of the exclusion set, coverage-output and tool-cache
  directories among them, and keeps only the files of the extension whitelist. The
  directory walk of \<open>search_code\<close> skips \<open>coverage\<close> and \<open>.gemini\<close>; the discovery of the
  graph does not: in a project with these two directories, the build returns and the
  files below them are nodes of the graph.
\<close>

theorem discovery_walks_coverage:
  "searchExcluded ''coverage'' \<and> searchExcluded ''.gemini'' \<and>
   \<not> excludedDir ''coverage'' \<and> \<not> excludedDir ''.gemini'' \<and>
   fst (build ''/'' coverage_tree app_read ''/app'') = Inr \<lparr>nodeCount = 3, totalFiles = 3\<rparr> \<and>
   nodes_has (nodes (snd (build ''/'' coverage_tree app_read ''/app''))) ''/app/coverage/prettify.js'' \<and>
   nodes_has (nodes (snd (build ''/'' coverage_tree app_read ''/app''))) ''/app/.gemini/data.json'' \<and>
   \<not> nodes_has (nodes (snd (build ''/'' coverage_tree app_read ''/app''))) ''/app/node_modules/dep.js''"
  by code_simp

subsection \<open>Comments and string literals\<close>

lemma old_build:
  "build ''/'' old_tree old_read ''/app'' = (Inr \<lparr>nodeCount = 3, totalFiles = 3\<rparr>, old_graph)"
  by code_simp

lemma firstStringArg_iff: "s \<in> set (firstStringArg args) \<longleftrightarrow> (\<exists>rest. args = StringLiteral s # rest)"
  by (cases args rule: firstStringArg.cases) auto

lemma nodeImports_iff: "s \<in> set (nodeImports n) \<longleftrightarrow> isReference n s"
  by (cases n rule: nodeImports.cases) (auto simp: isReference_def firstStringArg_iff)

lemma visit_references:
  "s \<in> set (fst (visit t)) \<longleftrightarrow> (\<exists>n \<in> set (subnodes t). isReference n s)"
proof (induction t rule: visit.induct)
  case (1 node)
  have "s \<in> set (fst (visit node)) \<longleftrightarrow>
      s \<in> set (nodeImports node) \<or> (\<exists>c \<in> set (forEachChild node). s \<in> set (fst (visit c)))"
    by (subst visit.simps) (auto simp: Let_def)
  also have "\<dots> \<longleftrightarrow> isReference node s \<or>
      (\<exists>c \<in> set (forEachChild node). \<exists>n \<in> set (subnodes c). isReference n s)"
    using 1 by (simp add: nodeImports_iff)
  also have "\<dots> \<longleftrightarrow> (\<exists>n \<in> set (subnodes node). isReference n s)"
    by (subst (2) subnodes.simps) auto
  finally show ?case .
qed

lemma visit_text: "visit (SourceFile text statements) = visit (SourceFile text' statements)"
  by (simp add: visit.simps)


lemma recordImport_traced:
  assumes inv: "graph_inv (nodes st)" and x: "nodes_has (nodes st) x"
    and tr: "imports_traced cwd rp st" and t: "rp x = Some t" and i: "i \<in> set (fst (visit t))"
  shows "imports_traced cwd rp (recordImport cwd x st i)"
proof -
  let ?st = "recordImport cwd x st i"
  have same: "resolveImport cwd ?st k s = resolveImport cwd st k s" for k s
    using recordImport_keeps [OF inv x, of cwd i] by (intro resolveImport_keys) auto
  from inv have "distinct (map fst (nodes st))" by (simp add: graph_inv_def)
  from recordImport_cases [OF this x, of cwd i]
  show ?thesis
  proof
    assume "?st = st"
    with tr show ?thesis by simp
  next
    assume "\<exists>r. resolveImport cwd st x i = Some r \<and> r \<noteq> [] \<and> nodes_has (nodes st) r \<and>
              ?st = st\<lparr>nodes := addEdge (nodes st) x r\<rparr>"
    then obtain r where r: "resolveImport cwd st x i = Some r"
      and eq: "?st = st\<lparr>nodes := addEdge (nodes st) x r\<rparr>" by blast
    show ?thesis
      unfolding imports_traced_def
    proof (intro allI impI)
      fix k n p
      assume n: "map_of (nodes ?st) k = Some n" and p: "p \<in> set (imports n)"
      from n eq obtain n0 where n0: "map_of (nodes st) k = Some n0"
        and imps: "imports n = (if k = x then pushNew r (imports n0) else imports n0)"
        by (auto simp: map_of_addEdge)
      show "\<exists>t s. rp k = Some t \<and> s \<in> set (fst (visit t)) \<and> resolveImport cwd ?st k s = Some p"
      proof (cases "p \<in> set (imports n0)")
        case True
        with tr n0 show ?thesis unfolding imports_traced_def same by blast
      next
        case False
        with p imps have "k = x" "p = r" by (auto split: if_splits)
        with t i r show ?thesis unfolding same by blast
      qed
    qed
  qed
qed

lemma recordImports_traced:
  assumes "graph_inv (nodes st)" and "nodes_has (nodes st) x"
    and "imports_traced cwd rp st" and "rp x = Some t" and "set imps \<subseteq> set (fst (visit t))"
  shows "imports_traced cwd rp (foldl (recordImport cwd x) st imps)"
  using assms(1,2,3,5)
proof (induction imps arbitrary: st)
  case Nil
  then show ?case by simp
next
  case (Cons i imps)
  let ?st = "recordImport cwd x st i"
  from Cons.prems have i: "i \<in> set (fst (visit t))" by simp
  from recordImport_keeps [OF Cons.prems(1,2), of cwd i]
  have inv: "graph_inv (nodes ?st)" and keys: "map fst (nodes ?st) = map fst (nodes st)" by auto
  from keys Cons.prems(2) have has: "nodes_has (nodes ?st) x" by (simp add: nodes_has_iff)
  from recordImport_traced [OF Cons.prems(1,2,3) assms(4) i]
  have "imports_traced cwd rp ?st" .
  from Cons.IH [OF inv has this] Cons.prems(4) show ?case by simp
qed

lemma symbols_traced:
  assumes "imports_traced cwd rp st"
  shows "imports_traced cwd rp (st\<lparr>nodes := updateNode (nodes st) x (\<lambda>n. n\<lparr>symbols := syms\<rparr>)\<rparr>)"
proof -
  let ?st = "st\<lparr>nodes := updateNode (nodes st) x (\<lambda>n. n\<lparr>symbols := syms\<rparr>)\<rparr>"
  have same: "resolveImport cwd ?st k s = resolveImport cwd st k s" for k s
    by (intro resolveImport_keys) auto
  show ?thesis
    unfolding imports_traced_def same
  proof (intro allI impI)
    fix k n p
    assume "map_of (nodes ?st) k = Some n" and p: "p \<in> set (imports n)"
    then obtain n0 where "map_of (nodes st) k = Some n0" "imports n = imports n0"
      by (auto simp: map_of_updateNode split: if_splits)
    with assms p show "\<exists>t s. rp k = Some t \<and> s \<in> set (fst (visit t)) \<and> resolveImport cwd st k s = Some p"
      unfolding imports_traced_def by metis
  qed
qed

lemma parseFile_traced:
  assumes inv: "graph_inv (nodes st)" and tr: "imports_traced cwd rp st"
  shows "imports_traced cwd rp (parseFile cwd rp st x)"
proof (cases "rp x")
  case None
  with tr show ?thesis by (simp add: parseFile_def)
next
  case (Some t)
  obtain imps syms where v: "visit t = (imps, syms)" by (cases "visit t")
  show ?thesis
  proof (cases "nodes_get (nodes st) x")
    case None
    with Some v tr show ?thesis by (simp add: parseFile_def)
  next
    case (Some currentNode)
    let ?st = "st\<lparr>nodes := updateNode (nodes st) x (\<lambda>n. n\<lparr>symbols := syms\<rparr>)\<rparr>"
    have 1: "graph_inv (nodes ?st)" using inv by (simp add: graph_inv_symbols)
    have 2: "nodes_has (nodes ?st) x"
      using Some by (simp add: nodes_has_iff nodes_get_def) (metis domI dom_map_of_conv_image_fst)
    have 3: "imports_traced cwd rp ?st" using tr by (rule symbols_traced)
    have 4: "set imps \<subseteq> set (fst (visit t))" using v by simp
    from recordImports_traced [OF 1 2 3 \<open>rp x = Some t\<close> 4] Some v \<open>rp x = Some t\<close>
    show ?thesis by (simp add: parseFile_def)
  qed
qed

lemma parseFiles_traced:
  assumes "graph_inv (nodes st)" and "imports_traced cwd rp st"
  shows "imports_traced cwd rp (foldl (parseFile cwd rp) st files)"
  using assms
proof (induction files arbitrary: st)
  case Nil
  then show ?case by simp
next
  case (Cons x files)
  from parseFile_keeps [OF Cons.prems(1), of cwd rp x] parseFile_traced [OF Cons.prems, of x]
    Cons.IH [of "parseFile cwd rp st x"]
  show ?case by simp
qed

lemma build_traced:
  assumes "build cwd tree rp rootDirArg = (Inr r, st)"
  shows "imports_traced cwd rp st"
proof -
  from build_success [OF assms] obtain files
    where files: "getAllFiles cwd (path_resolve cwd [rootDirArg]) tree = Inr files" by blast
  let ?st1 = "\<lparr>nodes = initNodes [] files, rootDir = path_resolve cwd [rootDirArg]\<rparr>"
  have "fresh_nodes []" by (simp add: fresh_nodes_def)
  from initNodes_props [OF this, of files] have inv: "graph_inv (nodes ?st1)"
    by (simp add: fresh_graph_inv)
  have "imports_traced cwd rp ?st1"
    unfolding imports_traced_def
    by (auto dest!: initNodes_fresh_node simp: initNode_def)
  from parseFiles_traced [OF inv this, of files] assms files
  show ?thesis by (auto simp: build_def Let_def)
qed


text \<open>
  C2. Comment and string immunity. The analyzer reads the syntax tree and never the text
  of the file, where the comments are; a string literal by itself contributes nothing;
  the references collected from a tree are exactly those of its import declarations,
  re-export declarations, dynamic imports and \<open>require\<close> calls. After a build, every
  import of a node is the resolution of such a reference of the node's own file. So the
  file with a commented import of \<open>./old\<close> and an import of \<open>./real\<close> gets one edge, to
  \<open>real.ts\<close>, and none to \<open>old.ts\<close>.
\<close>

theorem comment_string_immunity:
  "visit (SourceFile text statements) = visit (SourceFile text' statements) \<and>
   visit (StringLiteral lit) = ([], []) \<and>
   (s \<in> set (fst (visit t)) \<longleftrightarrow> (\<exists>m \<in> set (subnodes t). isReference m s)) \<and>
   (build cwd tree readParsed rootDirArg = (Inr r, st) \<and> nodes_get (nodes st) k = Some n \<and>
    p \<in> set (imports n)
      \<longrightarrow> (\<exists>t' ref m. readParsed k = Some t' \<and> m \<in> set (subnodes t') \<and> isReference m ref \<and>
                       resolveImport cwd st k ref = Some p))"
proof (intro conjI impI)
  show "visit (SourceFile text statements) = visit (SourceFile text' statements)"
    by (rule visit_text)
  show "visit (StringLiteral lit) = ([], [])"
    by (simp add: visit.simps)
  show "s \<in> set (fst (visit t)) \<longleftrightarrow> (\<exists>m \<in> set (subnodes t). isReference m s)"
    by (rule visit_references)
next
  assume a: "build cwd tree readParsed rootDirArg = (Inr r, st) \<and> nodes_get (nodes st) k = Some n \<and>
    p \<in> set (imports n)"
  then have "build cwd tree readParsed rootDirArg = (Inr r, st)" by simp
  then have "imports_traced cwd readParsed st" by (rule build_traced)
  with a obtain t' ref where "readParsed k = Some t'" "ref \<in> set (fst (visit t'))"
    "resolveImport cwd st k ref = Some p"
    unfolding imports_traced_def nodes_get_def by blast
  then show "\<exists>t' ref m. readParsed k = Some t' \<and> m \<in> set (subnodes t') \<and> isReference m ref \<and>
                       resolveImport cwd st k ref = Some p"
    unfolding visit_references by blast
qed

theorem comment_string_immunity_witness:
  "build ''/'' old_tree old_read ''/app'' = (Inr \<lparr>nodeCount = 3, totalFiles = 3\<rparr>, old_graph) \<and>
   nodes_get (nodes old_graph) ''/app/index.ts''
     = Some \<lparr>path = ''/app/index.ts'', imports = [''/app/real.ts''], importedBy = [], symbols = []\<rparr> \<and>
   nodes_get (nodes old_graph) ''/app/old.ts''
     = Some \<lparr>path = ''/app/old.ts'', imports = [], importedBy = [], symbols = []\<rparr> \<and>
   resolveImport ''/'' old_graph ''/app/index.ts'' ''./old'' = Some ''/app/old.ts'' \<and>
   (\<exists>t'. old_read ''/app/index.ts'' = Some t' \<and> fst (visit t') = [''./real''] \<and>
      (\<exists>m. m \<in> set (subnodes t') \<and> isReference m ''./real'') \<and>
      \<not> (\<exists>m. m \<in> set (subnodes t') \<and> isReference m ''./old'')) \<and>
   (\<exists>ref. resolveImport ''/'' old_graph ''/app/index.ts'' ref = Some ''/app/real.ts'')"
proof -
  let ?t = "SourceFile old_text
                   [VariableStatement []
                      [VariableDeclaration (Identifier ''note'')
                         [StringLiteral ''import { x } from './old';''],
                       VariableDeclaration (Identifier ''path'') [StringLiteral ''./old'']],
                    ImportDeclaration [OtherNode [OtherNode [OtherNode [Identifier ''y'']]]]
                      (StringLiteral ''./real'')]"
  have a: "nodes_get (nodes old_graph) ''/app/index.ts''
     = Some \<lparr>path = ''/app/index.ts'', imports = [''/app/real.ts''], importedBy = [], symbols = []\<rparr>"
    and b: "nodes_get (nodes old_graph) ''/app/old.ts''
     = Some \<lparr>path = ''/app/old.ts'', imports = [], importedBy = [], symbols = []\<rparr>"
    by (simp_all add: old_graph_def nodes_get_def)
  have c: "resolveImport ''/'' old_graph ''/app/index.ts'' ''./old'' = Some ''/app/old.ts''"
    by code_simp
  have t: "old_read ''/app/index.ts'' = Some ?t"
    by (simp add: old_read_def)
  have v: "fst (visit ?t) = [''./real'']"
    by code_simp
  note ci = comment_string_immunity [where t = ?t and cwd = "''/''" and tree = old_tree
      and readParsed = old_read and rootDirArg = "''/app''" and st = old_graph
      and r = "\<lparr>nodeCount = 3, totalFiles = 3\<rparr>" and k = "''/app/index.ts''"
      and p = "''/app/real.ts''"
      and n = "\<lparr>path = ''/app/index.ts'', imports = [''/app/real.ts''], importedBy = [], symbols = []\<rparr>"]
  have iff: "s \<in> set (fst (visit ?t)) \<longleftrightarrow> (\<exists>m. m \<in> set (subnodes ?t) \<and> isReference m s)" for s
    using ci [where s = s] by blast
  have d: "\<exists>m. m \<in> set (subnodes ?t) \<and> isReference m ''./real''"
    using iff [of "''./real''"] v by simp
  have e: "\<not> (\<exists>m. m \<in> set (subnodes ?t) \<and> isReference m ''./old'')"
    using iff [of "''./old''"] v by simp
  have g: "''/app/real.ts'' \<in> set (imports \<lparr>path = ''/app/index.ts'',
      imports = [''/app/real.ts''], importedBy = [], symbols = []\<rparr>)"
    by simp
  have f: "\<exists>ref. resolveImport ''/'' old_graph ''/app/index.ts'' ref = Some ''/app/real.ts''"
    using ci [where s = "''./real''"] old_build a g by blast
  from old_build a b c t v d e f show ?thesis by blast
qed

end
